theory Spec2Isabelle
  imports Complex_Main "HOL-Library.Log_Nat" "HOL-Library.Sublist" "HOL-Library.AList"
begin

section \<open>Python values\<close>

text \<open>
  The development embeds \<^verbatim>\<open>wave_function.py\<close>: the sample codec and the field names of
  \<^verbatim>\<open>WaveFuncHashHandler\<close>, the Redis commands the module issues, and the module-level
  functions \<^verbatim>\<open>clean_temp_data\<close>, \<^verbatim>\<open>check_memory_usage\<close> and \<^verbatim>\<open>graceful_exit\<close>.

  Byte strings and \<^verbatim>\<open>str\<close> are both \<^typ>\<open>string\<close> (the codec only produces ASCII). A finite
  Python \<^verbatim>\<open>float\<close> denotes a rational number; the doubles are the fixed points of
  \<open>round_double\<close> below. Infinities and NaN are outside the model. Python's unbounded
  \<^verbatim>\<open>int\<close> is \<^typ>\<open>int\<close>.

  A float has two zeros, and formatting tells them apart: \<^verbatim>\<open>f"{-0.0:.4f}"\<close> is \<^verbatim>\<open>-0.0000\<close>.
  \<open>pyfloat\<close> is a float as the formatter sees it: \<open>Fin q\<close> is the float of value \<open>q\<close>, positive
  zero for \<open>q = 0\<close>, and \<open>NegZero\<close> is \<^verbatim>\<open>-0.0\<close>. The time tag of a field name is a \<open>pyfloat\<close>,
  since the sign of a zero tag shows in the name. The parts of a sample are kept as the
  rationals they denote, which takes the two zeros of a part for one number: the code
  writes a part \<^verbatim>\<open>-0.0\<close> with its sign and reads it back as \<^verbatim>\<open>-0.0\<close>, equal to \<^verbatim>\<open>0.0\<close>.
\<close>

datatype py_error = KeyError | ValueError | DataError

datatype pyfloat = Fin rat | NegZero

fun float_val :: "pyfloat \<Rightarrow> rat" where
  "float_val (Fin q) = q"
| "float_val NegZero = 0"

fun sign_bit :: "pyfloat \<Rightarrow> bool" where
  "sign_bit (Fin q) = (q < 0)"
| "sign_bit NegZero = True"

record pycomplex =
  real_part :: rat
  imag_part :: rat

subsection \<open>\<^verbatim>\<open>str(int)\<close> and the \<^verbatim>\<open>.Nf\<close> format\<close>

definition digit_char :: "nat \<Rightarrow> char" where
  "digit_char d = char_of (48 + d)"

definition is_digit :: "char \<Rightarrow> bool" where
  "is_digit c = (48 \<le> (of_char c :: nat) \<and> (of_char c :: nat) \<le> 57)"

definition digit_val :: "char \<Rightarrow> nat" where
  "digit_val c = of_char c - 48"

function str_nat :: "nat \<Rightarrow> string" where
  "str_nat n = (if n < 10 then [digit_char n] else str_nat (n div 10) @ [digit_char (n mod 10)])"
  by pat_completeness auto
termination
  by (relation "measure (\<lambda>n. n)") simp_all

declare str_nat.simps [simp del]

definition str_int :: "int \<Rightarrow> string" where
  "str_int i = (if i < 0 then CHR ''-'' # str_nat (nat (- i)) else str_nat (nat i))"

text \<open>
  Python formats a float correctly rounded: the decimal nearest to the exact binary value,
  a tie going to the even neighbour.
\<close>

definition round_half_even :: "rat \<Rightarrow> int" where
  "round_half_even q =
     (let f = \<lfloor>q\<rfloor>; d = q - of_int f
      in if d < 1 / 2 then f
         else if 1 / 2 < d then f + 1
         else if even f then f else f + 1)"

fun zero_pad :: "nat \<Rightarrow> nat \<Rightarrow> string" where
  "zero_pad 0 m = []"
| "zero_pad (Suc k) m = zero_pad k (m div 10) @ [digit_char (m mod 10)]"

text \<open>
  \<open>format_f k v\<close> is \<^verbatim>\<open>f"{v:.kf}"\<close> for \<open>k > 0\<close>: a minus sign when the sign bit of \<open>v\<close> is set
  (so also for \<^verbatim>\<open>-0.0\<close>, and for a negative \<open>v\<close> whose digits round to zero), the integer
  digits, the point, and exactly \<open>k\<close> fractional digits.
\<close>

definition format_f :: "nat \<Rightarrow> pyfloat \<Rightarrow> string" where
  "format_f k v =
     (let n = nat (round_half_even (\<bar>float_val v\<bar> * 10 ^ k))
      in (if sign_bit v then ''-'' else '''') @ str_nat (n div 10 ^ k) @ ''.'' @ zero_pad k (n mod 10 ^ k))"

text \<open>
  The digits \<open>format_f k\<close> prints for a float of value \<open>v\<close>, as a number: \<open>|v|\<close> in units of
  \<open>10^-k\<close>, rounded.
\<close>

definition rounded_digits :: "nat \<Rightarrow> rat \<Rightarrow> nat" where
  "rounded_digits k v = nat (round_half_even (\<bar>v\<bar> * 10 ^ k))"

text \<open>The number that \<open>format_f k (Fin v)\<close> spells.\<close>

definition decimal_value :: "nat \<Rightarrow> rat \<Rightarrow> rat" where
  "decimal_value k v = (if v < 0 then - 1 else 1) * (of_nat (rounded_digits k v) / 10 ^ k)"

subsection \<open>Doubles and \<^verbatim>\<open>float(str)\<close>\<close>

text \<open>
  \<open>binade q\<close> is the exponent \<open>e\<close> with \<open>2^e \<le> |q| < 2^(e+1)\<close>, and \<open>ulp q\<close> the spacing of the
  IEEE-754 binary64 values around \<open>q\<close>: 53 significant bits, subnormals below \<open>2^-1022\<close>.
  \<open>round_double\<close> rounds a rational to the nearest such value, ties to even; overflow to
  infinity is not modelled.
\<close>

definition binade :: "rat \<Rightarrow> int" where
  "binade q =
     (let (a, b) = quotient_of \<bar>q\<bar>; e = bitlen a - bitlen b
      in if (2::rat) powi e \<le> \<bar>q\<bar> then e else e - 1)"

definition ulp :: "rat \<Rightarrow> rat" where
  "ulp q = 2 powi (max (binade q) (- 1022) - 52)"

definition round_double :: "rat \<Rightarrow> rat" where
  "round_double q = (if q = 0 then 0 else of_int (round_half_even (q / ulp q)) * ulp q)"

definition float_div :: "rat \<Rightarrow> rat \<Rightarrow> rat" where
  "float_div a b = round_double (a / b)"

definition float_mul :: "rat \<Rightarrow> rat \<Rightarrow> rat" where
  "float_mul a b = round_double (a * b)"

definition digits_value :: "string \<Rightarrow> nat" where
  "digits_value ds = foldl (\<lambda>a c. 10 * a + digit_val c) 0 ds"

text \<open>
  \<open>parse_decimal\<close> reads the plain decimal literals: an optional sign, digits, and
  optionally a point with digits, at least one digit in all. These are the strings
  \<open>format_f\<close> writes. Python's \<^verbatim>\<open>float\<close> takes further spellings (an exponent, surrounding
  blanks, underscores, \<^verbatim>\<open>inf\<close> and \<^verbatim>\<open>nan\<close>, non-ASCII digits), which this module never stores
  and which are read here as malformed.
\<close>

definition parse_decimal :: "string \<Rightarrow> rat option" where
  "parse_decimal s =
     (let neg = (s \<noteq> [] \<and> hd s = CHR ''-'');
          body = (if s \<noteq> [] \<and> (hd s = CHR ''-'' \<or> hd s = CHR ''+'') then tl s else s);
          ip = takeWhile (\<lambda>c. c \<noteq> CHR ''.'') body;
          fp = drop (Suc (length ip)) body
      in if (ip = [] \<and> fp = []) \<or> \<not> list_all is_digit ip \<or> \<not> list_all is_digit fp then None
         else Some ((if neg then - 1 else 1) *
                (of_nat (digits_value ip) + of_nat (digits_value fp) / 10 ^ length fp)))"

definition py_float :: "string \<Rightarrow> py_error + rat" where
  "py_float s = (case parse_decimal s of None \<Rightarrow> Inl ValueError | Some q \<Rightarrow> Inr (round_double q))"

text \<open>\<^verbatim>\<open>s.split(sep)\<close> for a one-character separator: \<open>n\<close> separators give \<open>n + 1\<close> pieces.\<close>

fun split_on :: "char \<Rightarrow> string \<Rightarrow> string list" where
  "split_on sep [] = [[]]"
| "split_on sep (c # cs) =
     (if c = sep then [] # split_on sep cs
      else (case split_on sep cs of [] \<Rightarrow> [[c]] | p # ps \<Rightarrow> (c # p) # ps))"

section \<open>Configuration\<close>

definition ROOT_HASH_KEY :: string where
  "ROOT_HASH_KEY = ''quantum:wave_func:psi_map''"

definition MAX_MEMORY_MB :: nat where
  "MAX_MEMORY_MB = 8000"

definition TEMP_DATA_TTL :: nat where
  "TEMP_DATA_TTL = 3600"

section \<open>The codec of \<^verbatim>\<open>WaveFuncHashHandler\<close>\<close>

definition c2b :: "pycomplex \<Rightarrow> string" where
  "c2b c = format_f 10 (Fin (real_part c)) @ '','' @ format_f 10 (Fin (imag_part c))"

text \<open>
  \<^verbatim>\<open>r, i = b.decode().split(",")\<close> raises \<^verbatim>\<open>ValueError\<close> unless there are exactly two pieces;
  so does \<^verbatim>\<open>float\<close> on a malformed piece, the real part being read first.
\<close>

definition b2c :: "string \<Rightarrow> py_error + pycomplex" where
  "b2c b =
     (case split_on CHR '','' b of
        [r, i] \<Rightarrow>
          (case py_float r of
             Inl e \<Rightarrow> Inl e
           | Inr x \<Rightarrow>
               (case py_float i of
                  Inl e \<Rightarrow> Inl e
                | Inr y \<Rightarrow> Inr \<lparr>real_part = x, imag_part = y\<rparr>))
      | _ \<Rightarrow> Inl ValueError)"

definition gen_field :: "int \<Rightarrow> int \<Rightarrow> int \<Rightarrow> pyfloat \<Rightarrow> bool \<Rightarrow> string" where
  "gen_field x y z t temp =
     (if temp then ''temp_'' else ''formal_'') @
     ''x'' @ str_int x @ ''_y'' @ str_int y @ ''_z'' @ str_int z @ ''_t'' @ format_f 4 t"

section \<open>The Redis server, as the module uses it\<close>

text \<open>
  One database. The hash stored at \<open>ROOT_HASH_KEY\<close> is an association list of fields and
  values, \<open>[]\<close> when the key does not exist (Redis removes a hash with its last field);
  \<open>root_ttl\<close> is the time in seconds left before the key expires, \<open>None\<close> when no expiry
  is set; \<open>other_keys\<close> are the names of the other keys of the database. Commands are
  taken to reach the server and be answered, and the server to stay below its memory limit,
  so that it evicts nothing of its own accord.
\<close>

record redis_db =
  root_fields :: "(string \<times> string) list"
  root_ttl :: "nat option"
  other_keys :: "string list"

text \<open>
  \<^verbatim>\<open>hmset(root, mapping)\<close> of redis-py raises \<^verbatim>\<open>DataError\<close> on an empty mapping and otherwise
  sets every field; the expiry of the key is left alone.
\<close>

definition hmset :: "(string \<times> string) list \<Rightarrow> redis_db \<Rightarrow> py_error + redis_db" where
  "hmset mapping s =
     (if mapping = [] then Inl DataError
      else Inr (s\<lparr>root_fields := fold (\<lambda>(f, v). AList.update f v) mapping (root_fields s)\<rparr>))"

text \<open>\<^verbatim>\<open>expire(root, secs)\<close>: nothing on a missing key; zero seconds deletes the key.\<close>

definition expire :: "nat \<Rightarrow> redis_db \<Rightarrow> redis_db" where
  "expire secs s =
     (if root_fields s = [] then s
      else if secs = 0 then s\<lparr>root_fields := [], root_ttl := None\<rparr>
      else s\<lparr>root_ttl := Some secs\<rparr>)"

definition hget :: "string \<Rightarrow> redis_db \<Rightarrow> string option" where
  "hget f s = map_of (root_fields s) f"

text \<open>
  \<^verbatim>\<open>hscan_iter(root, match=p + b"*")\<close> run to its end, for a pattern whose only wildcard is
  the final star: the entries whose field begins with \<open>p\<close>.
\<close>

definition hscan_iter :: "string \<Rightarrow> redis_db \<Rightarrow> (string \<times> string) list" where
  "hscan_iter p s = filter (\<lambda>(k, v). prefix p k) (root_fields s)"

definition hdel :: "string list \<Rightarrow> redis_db \<Rightarrow> redis_db" where
  "hdel fs s =
     (let r = filter (\<lambda>(k, v). k \<notin> set fs) (root_fields s)
      in s\<lparr>root_fields := r, root_ttl := (if r = [] then None else root_ttl s)\<rparr>)"

definition all_keys :: "redis_db \<Rightarrow> string list" where
  "all_keys s = (if root_fields s = [] then [] else [ROOT_HASH_KEY]) @ other_keys s"

text \<open>\<^verbatim>\<open>keys(pattern=p + b"*")\<close>, again for a literal prefix \<open>p\<close>.\<close>

definition keys :: "string \<Rightarrow> redis_db \<Rightarrow> string list" where
  "keys p s = filter (prefix p) (all_keys s)"

definition delete :: "string list \<Rightarrow> redis_db \<Rightarrow> redis_db" where
  "delete ks s =
     (let s1 = (if ROOT_HASH_KEY \<in> set ks then s\<lparr>root_fields := [], root_ttl := None\<rparr> else s)
      in s1\<lparr>other_keys := filter (\<lambda>k. k \<notin> set ks) (other_keys s1)\<rparr>)"

text \<open>The passing of \<open>dt\<close> seconds with no command: a key whose time is up is gone.\<close>

definition elapse :: "nat \<Rightarrow> redis_db \<Rightarrow> redis_db" where
  "elapse dt s =
     (case root_ttl s of
        None \<Rightarrow> s
      | Some r \<Rightarrow>
          if r \<le> dt then s\<lparr>root_fields := [], root_ttl := None\<rparr>
          else s\<lparr>root_ttl := Some (r - dt)\<rparr>)"

section \<open>Module state and module-level functions\<close>

text \<open>
  The globals of the module: \<open>redis_client\<close> is \<^verbatim>\<open>Optional[redis.Redis]\<close>, the only state of
  a client being whether its connection pool holds an open connection (a command opens
  one on demand); \<open>EXIT_FLAG\<close>; and the server the client talks to. Printing is not
  modelled.
\<close>

record client =
  pool_open :: bool

record world =
  redis_client :: "client option"
  EXIT_FLAG :: bool
  server :: redis_db

definition clean_temp_data :: "world \<Rightarrow> world" where
  "clean_temp_data w =
     (case redis_client w of
        None \<Rightarrow> w
      | Some c \<Rightarrow>
          let s = server w;
              temp_fields = map fst (hscan_iter ''temp_'' s);
              s1 = (if temp_fields \<noteq> [] then hdel temp_fields s else s);
              temp_keys = keys ''quantum:temp:'' s1;
              s2 = (if temp_keys \<noteq> [] then delete temp_keys s1 else s1)
          in w\<lparr>redis_client := Some (c\<lparr>pool_open := True\<rparr>), server := s2\<rparr>)"

text \<open>
  For the proofs: the two deletions of \<open>clean_temp_data\<close> as one function of the server
  state (\<open>clean_temp_data_client\<close> below relates the two).
\<close>

definition evict :: "redis_db \<Rightarrow> redis_db" where
  "evict s =
     (let s1 = (if map fst (hscan_iter ''temp_'' s) \<noteq> [] then hdel (map fst (hscan_iter ''temp_'' s)) s else s)
      in if keys ''quantum:temp:'' s1 \<noteq> [] then delete (keys ''quantum:temp:'' s1) s1 else s1)"

text \<open>
  \<open>used_memory\<close> is the figure of that name in the server's reply to \<^verbatim>\<open>INFO memory\<close>. The
  divisions and the product are Python float operations, each rounded to a double.
\<close>

definition check_memory_usage :: "world \<Rightarrow> nat \<Rightarrow> world \<times> rat" where
  "check_memory_usage w used_memory =
     (case redis_client w of
        None \<Rightarrow> (w, 0)
      | Some c \<Rightarrow>
          let w1 = w\<lparr>redis_client := Some (c\<lparr>pool_open := True\<rparr>)\<rparr>;
              used = float_div (float_div (of_nat used_memory) 1024) 1024;
              usage = float_mul (float_div used (of_nat MAX_MEMORY_MB)) 100
          in if 85 \<le> usage then (clean_temp_data w1, usage) else (w1, usage))"

text \<open>For the proofs: the value of \<open>usage\<close> in \<open>check_memory_usage\<close>.\<close>

definition usage_pct :: "nat \<Rightarrow> rat" where
  "usage_pct used_memory =
     float_mul (float_div (float_div (float_div (of_nat used_memory) 1024) 1024) (of_nat MAX_MEMORY_MB)) 100"

text \<open>
  \<open>graceful_exit\<close> either returns (the flag was already set) or ends in \<^verbatim>\<open>sys.exit(0)\<close>,
  which the \<^verbatim>\<open>finally\<close> clause reaches on every path.
\<close>

datatype outcome = Returned | SystemExit int

definition graceful_exit :: "world \<Rightarrow> world \<times> outcome" where
  "graceful_exit w =
     (if EXIT_FLAG w then (w, Returned)
      else let w1 = w\<lparr>EXIT_FLAG := True\<rparr>;
               w2 = (case redis_client w1 of
                       None \<Rightarrow> w1
                     | Some c \<Rightarrow> w1\<lparr>redis_client := Some (c\<lparr>pool_open := False\<rparr>)\<rparr>)
           in (clean_temp_data w2, SystemExit 0))"

section \<open>Batch write and point read\<close>

text \<open>
  A three-dimensional \<^verbatim>\<open>np.ndarray\<close> of \<^verbatim>\<open>complex128\<close>: its shape and its elements. The
  handler's commands are modelled by their effect on the server; the wall-clock \<^verbatim>\<open>cost\<close>
  entry of the result is left out.
\<close>

record ndarray3 =
  shape :: "nat \<times> nat \<times> nat"
  item :: "nat \<Rightarrow> nat \<Rightarrow> nat \<Rightarrow> pycomplex"

record batch_result =
  res_count :: nat
  res_temp :: bool

definition batch_data :: "ndarray3 \<Rightarrow> pyfloat \<Rightarrow> bool \<Rightarrow> (string \<times> string) list" where
  "batch_data psi t temp =
     (case shape psi of (nx, ny, nz) \<Rightarrow>
        fold (\<lambda>x. fold (\<lambda>y. fold (\<lambda>z.
            AList.update (gen_field (int x) (int y) (int z) t temp) (c2b (item psi x y z)))
          [0..<nz]) [0..<ny]) [0..<nx] [])"

text \<open>For the proofs: the coordinates in the order of the three nested loops.\<close>

definition coords :: "nat \<Rightarrow> nat \<Rightarrow> nat \<Rightarrow> (nat \<times> nat \<times> nat) list" where
  "coords nx ny nz = List.product [0..<nx] (List.product [0..<ny] [0..<nz])"

definition batch_save :: "ndarray3 \<Rightarrow> pyfloat \<Rightarrow> bool \<Rightarrow> redis_db \<Rightarrow> py_error + redis_db \<times> batch_result" where
  "batch_save psi t temp s =
     (let data = batch_data psi t temp
      in case hmset data s of
           Inl e \<Rightarrow> Inl e
         | Inr s1 \<Rightarrow>
             Inr (if temp then expire TEMP_DATA_TTL s1 else s1,
                  \<lparr>res_count = length data, res_temp = temp\<rparr>))"

text \<open>For the proofs: the server after a successful batch (\<open>batch_save_nonempty\<close> below).\<close>

definition after_batch :: "ndarray3 \<Rightarrow> pyfloat \<Rightarrow> bool \<Rightarrow> redis_db \<Rightarrow> redis_db" where
  "after_batch psi t temp s =
     s\<lparr>root_fields := fold (\<lambda>(f, v). AList.update f v) (batch_data psi t temp) (root_fields s),
       root_ttl := (if temp then Some TEMP_DATA_TTL else root_ttl s)\<rparr>"

definition get_point :: "int \<Rightarrow> int \<Rightarrow> int \<Rightarrow> pyfloat \<Rightarrow> bool \<Rightarrow> redis_db \<Rightarrow> py_error + pycomplex" where
  "get_point x y z t temp s =
     (case hget (gen_field x y z t temp) s of
        None \<Rightarrow> Inl KeyError
      | Some val \<Rightarrow> if val = [] then Inl KeyError else b2c val)"

text \<open>
  The stores this module writes: every value of the root hash is the encoding of a
  sample. \<open>batch_save\<close> is the only function of the module that writes to the hash, and it
  writes \<open>c2b\<close> encodings (\<open>batch_save_codec_store\<close> below).
\<close>

definition codec_store :: "redis_db \<Rightarrow> bool" where
  "codec_store s = (\<forall>p \<in> set (root_fields s). snd p \<in> range c2b)"

section \<open>States and inputs of the examples\<close>

text \<open>
  Concrete stores, processes and arrays at which the theorems of the last section are
  instantiated. The time tags and sample values are dyadic or short decimal fractions.
\<close>

definition c4_world :: world where
  "c4_world =
     \<lparr>redis_client = Some \<lparr>pool_open = True\<rparr>, EXIT_FLAG = False,
      server = \<lparr>root_fields = [(''temp_x0_y0_z0_t0.0100'', ''1.0000000000,0.0000000000''),
                               (''formal_x0_y0_z0_t0.0100'', ''0.5000000000,0.0000000000'')],
                root_ttl = None,
                other_keys = [''quantum:temp:scratch'', ''unrelated'']\<rparr>\<rparr>"

definition c8_world :: world where
  "c8_world =
     \<lparr>redis_client = Some \<lparr>pool_open = True\<rparr>, EXIT_FLAG = False,
      server = \<lparr>root_fields = [(''temp_x1_y0_z0_t0.0100'', ''1.0000000000,0.0000000000'')],
                root_ttl = Some 1800,
                other_keys = [''quantum:temp:scratch'']\<rparr>\<rparr>"

definition c10_world :: world where
  "c10_world =
     \<lparr>redis_client = None, EXIT_FLAG = False,
      server = \<lparr>root_fields = [(''temp_x0_y0_z0_t0.0100'', ''1.0000000000,0.0000000000'')],
                root_ttl = Some 3600, other_keys = [''quantum:temp:scratch'']\<rparr>\<rparr>"

definition c5_world :: world where
  "c5_world =
     \<lparr>redis_client = Some \<lparr>pool_open = True\<rparr>, EXIT_FLAG = False,
      server = \<lparr>root_fields = [(''temp_x0_y0_z0_t0.0100'', ''1.0000000000,0.0000000000''),
                               (''formal_x0_y0_z0_t0.0100'', ''0.5000000000,0.0000000000'')],
                root_ttl = None,
                other_keys = [''quantum:temp:scratch'']\<rparr>\<rparr>"

definition c2_db :: redis_db where
  "c2_db =
     \<lparr>root_fields = [(gen_field 0 0 0 (Fin (1 / 100)) False, c2b \<lparr>real_part = 1 / 2, imag_part = 0\<rparr>)],
      root_ttl = None, other_keys = []\<rparr>"

definition c2_psi :: ndarray3 where
  "c2_psi = \<lparr>shape = (1, 1, 1), item = (\<lambda>x y z. \<lparr>real_part = 1, imag_part = 0\<rparr>)\<rparr>"

definition c6_db :: redis_db where
  "c6_db = \<lparr>root_fields = [], root_ttl = None, other_keys = []\<rparr>"

definition c6_psi :: ndarray3 where
  "c6_psi = \<lparr>shape = (1, 1, 1), item = (\<lambda>x y z. \<lparr>real_part = 1 / 2 ^ 40, imag_part = 0\<rparr>)\<rparr>"

definition c6_grid :: ndarray3 where
  "c6_grid =
     \<lparr>shape = (4, 4, 4),
      item = (\<lambda>x y z. \<lparr>real_part = rat_of_nat (x + y) / 4, imag_part = - rat_of_nat z / 8\<rparr>)\<rparr>"

definition c7_store :: redis_db where
  "c7_store =
     \<lparr>root_fields = [(gen_field 0 0 0 (Fin 0) False, c2b \<lparr>real_part = 1, imag_part = 0\<rparr>)],
      root_ttl = None, other_keys = []\<rparr>"

definition c9_db :: redis_db where
  "c9_db =
     \<lparr>root_fields = [(gen_field 0 0 0 (Fin (1 / 100)) True, c2b \<lparr>real_part = 1 / 2, imag_part = 0\<rparr>)],
      root_ttl = Some 3600, other_keys = []\<rparr>"

definition c9_psi :: ndarray3 where
  "c9_psi = \<lparr>shape = (1, 1, 1), item = (\<lambda>x y z. \<lparr>real_part = 1, imag_part = 0\<rparr>)\<rparr>"

section \<open>Digits and decimal strings\<close>

lemma of_char_digit_char: "d < 10 \<Longrightarrow> (of_char (digit_char d) :: nat) = 48 + d"
  by (simp add: digit_char_def)

lemma is_digit_digit_char: "d < 10 \<Longrightarrow> is_digit (digit_char d)"
  by (simp add: is_digit_def of_char_digit_char)

lemma digit_val_digit_char: "d < 10 \<Longrightarrow> digit_val (digit_char d) = d"
  by (simp add: digit_val_def of_char_digit_char)

lemma is_digit_not_punct:
  "is_digit c \<Longrightarrow> c \<noteq> CHR ''_'' \<and> c \<noteq> CHR ''-'' \<and> c \<noteq> CHR ''.'' \<and> c \<noteq> CHR '','' \<and> c \<noteq> CHR ''+''"
  by (auto simp: is_digit_def)

lemma str_nat_digits: "list_all is_digit (str_nat n)"
proof (induction n rule: str_nat.induct)
  case (1 n)
  show ?case
  proof (cases "n < 10")
    case True
    then show ?thesis by (simp add: str_nat.simps [of n] is_digit_digit_char)
  next
    case False
    with 1 show ?thesis by (simp add: str_nat.simps [of n] is_digit_digit_char)
  qed
qed

lemma str_nat_nonempty: "str_nat n \<noteq> []"
  by (subst str_nat.simps) simp

lemma digits_value_snoc: "digits_value (ds @ [c]) = 10 * digits_value ds + digit_val c"
  by (simp add: digits_value_def)

lemma digits_value_str_nat: "digits_value (str_nat n) = n"
proof (induction n rule: str_nat.induct)
  case (1 n)
  show ?case
  proof (cases "n < 10")
    case True
    then show ?thesis
      by (simp add: str_nat.simps [of n] digits_value_def digit_val_digit_char)
  next
    case False
    with 1 show ?thesis
      by (simp add: str_nat.simps [of n] digits_value_snoc digit_val_digit_char)
  qed
qed

lemma str_nat_inject: "str_nat m = str_nat n \<longleftrightarrow> m = n"
  by (metis digits_value_str_nat)

lemma str_int_inject: "str_int i = str_int j \<longleftrightarrow> i = j"
proof
  assume eq: "str_int i = str_int j"
  have no_minus: "hd (str_nat n) \<noteq> CHR ''-''" for n
    using str_nat_digits [of n] str_nat_nonempty [of n] is_digit_not_punct
    by (cases "str_nat n") auto
  show "i = j"
  proof (cases "i < 0"; cases "j < 0")
    assume "i < 0" "j < 0"
    with eq have "nat (- i) = nat (- j)" by (simp add: str_int_def str_nat_inject)
    with \<open>i < 0\<close> \<open>j < 0\<close> show ?thesis by simp
  next
    assume "i < 0" "\<not> j < 0"
    with eq no_minus [of "nat j"] show ?thesis by (metis list.sel(1) str_int_def)
  next
    assume "\<not> i < 0" "j < 0"
    with eq no_minus [of "nat i"] show ?thesis by (metis list.sel(1) str_int_def)
  next
    assume "\<not> i < 0" "\<not> j < 0"
    with eq have "nat i = nat j" by (simp add: str_int_def str_nat_inject)
    with \<open>\<not> i < 0\<close> \<open>\<not> j < 0\<close> show ?thesis by simp
  qed
qed simp

lemma str_int_chars: "c \<in> set (str_int i) \<Longrightarrow> is_digit c \<or> c = CHR ''-''"
  using str_nat_digits by (auto simp: str_int_def list_all_iff split: if_splits)

lemma str_int_no_underscore: "CHR ''_'' \<notin> set (str_int i)"
  using str_int_chars [of "CHR ''_''" i] is_digit_not_punct [of "CHR ''_''"] by auto

lemma length_zero_pad: "length (zero_pad k m) = k"
  by (induction k arbitrary: m) simp_all

lemma zero_pad_digits: "list_all is_digit (zero_pad k m)"
  by (induction k arbitrary: m) (simp_all add: is_digit_digit_char)

lemma digits_value_zero_pad: "digits_value (zero_pad k m) = m mod 10 ^ k"
proof (induction k arbitrary: m)
  case 0
  show ?case by (simp add: digits_value_def)
next
  case (Suc k)
  have "m mod (10 * 10 ^ k) = 10 * (m div 10 mod 10 ^ k) + m mod 10"
    by (simp add: mod_mult2_eq add.commute)
  with Suc show ?case
    by (simp add: digits_value_snoc digit_val_digit_char)
qed

subsection \<open>Rounding to the nearest integer\<close>

lemma round_half_even_cases:
  "round_half_even q = \<lfloor>q\<rfloor> \<or> round_half_even q = \<lfloor>q\<rfloor> + 1"
  by (simp add: round_half_even_def Let_def)

lemma round_half_even_error: "\<bar>of_int (round_half_even q) - q\<bar> \<le> 1 / 2"
proof -
  have "of_int \<lfloor>q\<rfloor> \<le> q" "q < of_int \<lfloor>q\<rfloor> + 1" by linarith+
  then show ?thesis
    by (auto simp: round_half_even_def Let_def abs_le_iff)
qed

lemma round_half_even_of_int [simp]: "round_half_even (of_int n) = n"
  by (simp add: round_half_even_def)

lemma round_half_even_mono:
  assumes "p \<le> q"
  shows "round_half_even p \<le> round_half_even q"
proof (cases "\<lfloor>p\<rfloor> = \<lfloor>q\<rfloor>")
  case True
  with assms have "p - of_int \<lfloor>p\<rfloor> \<le> q - of_int \<lfloor>q\<rfloor>" by simp
  with True show ?thesis
    by (auto simp: round_half_even_def Let_def)
next
  case False
  with assms have "\<lfloor>p\<rfloor> < \<lfloor>q\<rfloor>"
    by (simp add: floor_mono less_le)
  moreover have "round_half_even p \<le> \<lfloor>p\<rfloor> + 1"
    using round_half_even_cases [of p] by auto
  moreover have "\<lfloor>q\<rfloor> \<le> round_half_even q"
    using round_half_even_cases [of q] by auto
  ultimately show ?thesis by linarith
qed

lemma round_half_even_nonneg: "0 \<le> q \<Longrightarrow> 0 \<le> round_half_even q"
  using round_half_even_mono [of 0 q] round_half_even_of_int [of 0] by simp

lemma round_half_even_minus: "round_half_even (- q) = - round_half_even q"
proof (cases "q = of_int \<lfloor>q\<rfloor>")
  case True
  then obtain n where "q = of_int n" ..
  then have "- q = of_int (- n)" by simp
  then show ?thesis
    using \<open>q = of_int n\<close> round_half_even_of_int by metis
next
  case False
  then have "of_int \<lfloor>q\<rfloor> \<noteq> q" by (rule not_sym)
  then have lt: "of_int \<lfloor>q\<rfloor> < q"
    by (rule order.not_eq_order_implies_strict) (rule of_int_floor_le)
  have "q < of_int \<lfloor>q\<rfloor> + 1" by linarith
  with lt have fl: "\<lfloor>- q\<rfloor> = - \<lfloor>q\<rfloor> - 1"
    by (intro floor_unique) simp_all
  note lt
  then show ?thesis
    unfolding round_half_even_def Let_def fl
    by (auto simp: field_simps)
qed

subsection \<open>Reading back what \<open>format_f\<close> writes\<close>

lemma format_f_chars:
  "c \<in> set (format_f k v) \<Longrightarrow> is_digit c \<or> c = CHR ''-'' \<or> c = CHR ''.''"
  using str_nat_digits zero_pad_digits
  by (auto simp: format_f_def Let_def list_all_iff split: if_splits)

lemma format_f_no_comma: "CHR '','' \<notin> set (format_f k v)"
  using format_f_chars [of "CHR '',''" k v] is_digit_not_punct [of "CHR '',''"] by auto

lemma format_f_no_underscore: "CHR ''_'' \<notin> set (format_f k v)"
  using format_f_chars [of "CHR ''_''" k v] is_digit_not_punct [of "CHR ''_''"] by auto

lemma takeWhile_before_point:
  "list_all is_digit ds \<Longrightarrow> takeWhile (\<lambda>c. c \<noteq> CHR ''.'') (ds @ CHR ''.'' # r) = ds"
  using is_digit_not_punct by (induction ds) auto

lemma parse_decimal_digits_point:
  assumes "list_all is_digit ip" "list_all is_digit fp" "ip \<noteq> []"
  shows "parse_decimal (ip @ CHR ''.'' # fp) =
           Some (of_nat (digits_value ip) + of_nat (digits_value fp) / 10 ^ length fp)"
proof -
  from assms(1,3) have hd: "hd (ip @ CHR ''.'' # fp) \<noteq> CHR ''-''" "hd (ip @ CHR ''.'' # fp) \<noteq> CHR ''+''"
    using is_digit_not_punct by (cases ip; auto)+
  show ?thesis
    using assms hd by (simp add: parse_decimal_def takeWhile_before_point)
qed

lemma parse_decimal_minus_digits_point:
  assumes "list_all is_digit ip" "list_all is_digit fp" "ip \<noteq> []"
  shows "parse_decimal (CHR ''-'' # ip @ CHR ''.'' # fp) =
           Some (- (of_nat (digits_value ip) + of_nat (digits_value fp) / 10 ^ length fp))"
  using assms by (simp add: parse_decimal_def takeWhile_before_point)

lemma parse_decimal_format_f:
  "parse_decimal (format_f k v) =
     Some ((if sign_bit v then - 1 else 1) * (of_nat (rounded_digits k (float_val v)) / 10 ^ k))"
proof -
  define n where "n = rounded_digits k (float_val v)"
  have val: "(of_nat (n div 10 ^ k) :: rat) + of_nat (n mod 10 ^ k mod 10 ^ k) / 10 ^ k = of_nat n / 10 ^ k"
  proof -
    have "(of_nat n :: rat) = of_nat (n div 10 ^ k * 10 ^ k + n mod 10 ^ k)"
      by (simp only: div_mult_mod_eq)
    also have "\<dots> = of_nat (n div 10 ^ k) * 10 ^ k + of_nat (n mod 10 ^ k)"
      by (simp only: of_nat_add of_nat_mult of_nat_power of_nat_numeral)
    finally show ?thesis by (simp add: field_simps)
  qed
  show ?thesis
  proof (cases "sign_bit v")
    case True
    then have "format_f k v = CHR ''-'' # str_nat (n div 10 ^ k) @ CHR ''.'' # zero_pad k (n mod 10 ^ k)"
      by (simp add: format_f_def n_def rounded_digits_def Let_def)
    then show ?thesis
      using True val
      by (simp add: parse_decimal_minus_digits_point str_nat_digits zero_pad_digits str_nat_nonempty
          digits_value_str_nat digits_value_zero_pad length_zero_pad n_def)
  next
    case False
    then have "format_f k v = str_nat (n div 10 ^ k) @ CHR ''.'' # zero_pad k (n mod 10 ^ k)"
      by (simp add: format_f_def n_def rounded_digits_def Let_def)
    then show ?thesis
      using False val
      by (simp add: parse_decimal_digits_point str_nat_digits zero_pad_digits str_nat_nonempty
          digits_value_str_nat digits_value_zero_pad length_zero_pad n_def)
  qed
qed

lemma split_on_no_sep: "sep \<notin> set s \<Longrightarrow> split_on sep s = [s]"
  by (induction s) auto

lemma split_on_once:
  "sep \<notin> set a \<Longrightarrow> sep \<notin> set b \<Longrightarrow> split_on sep (a @ sep # b) = [a, b]"
  by (induction a) (auto simp: split_on_no_sep)

lemma split_on_c2b:
  "split_on CHR '','' (c2b c) = [format_f 10 (Fin (real_part c)), format_f 10 (Fin (imag_part c))]"
  by (simp add: c2b_def split_on_once format_f_no_comma)

subsection \<open>The binade of a rational\<close>

lemma bitlen_powi_bounds:
  assumes "0 < a"
  shows "(2::rat) powi (bitlen a - 1) \<le> of_int a" and "of_int a < (2::rat) powi (bitlen a)"
proof -
  from assms have pos: "1 \<le> bitlen a"
    using bitlen_eq_zero_iff [of a] bitlen_nonneg [of a] by linarith
  from bitlen_bounds [OF assms]
  have lo: "2 ^ nat (bitlen a - 1) \<le> a" and hi: "a < 2 ^ nat (bitlen a)" by simp_all
  from lo have "rat_of_int (2 ^ nat (bitlen a - 1)) \<le> of_int a" by (simp only: of_int_le_iff)
  with pos show "(2::rat) powi (bitlen a - 1) \<le> of_int a"
    by (simp add: power_int_nonneg_exp)
  from hi have "rat_of_int a < of_int (2 ^ nat (bitlen a))" by (simp only: of_int_less_iff)
  with pos show "of_int a < (2::rat) powi (bitlen a)"
    by (simp add: power_int_nonneg_exp)
qed

lemma two_powi_Suc: "(2::rat) powi (e + 1) = 2 * 2 powi e"
  by (simp add: power_int_add)

lemma two_powi_pred: "(2::rat) powi (e - 1) = 2 powi e / 2"
  by (simp add: power_int_diff)

lemma binade_bounds:
  assumes "q \<noteq> 0"
  shows "2 powi (binade q) \<le> \<bar>q\<bar>" and "\<bar>q\<bar> < 2 powi (binade q + 1)"
proof -
  obtain a b where ab: "quotient_of \<bar>q\<bar> = (a, b)" by (cases "quotient_of \<bar>q\<bar>")
  then have b: "0 < b" by (rule quotient_of_denom_pos)
  from ab have q: "\<bar>q\<bar> = of_int a / of_int b" by (rule quotient_of_div)
  from assms have "0 < \<bar>q\<bar>" by simp
  with q b have a: "0 < a" by (simp add: zero_less_divide_iff)
  define e where "e = bitlen a - bitlen b"
  have A: "(2::rat) powi (bitlen a - 1) \<le> of_int a" "of_int a < (2::rat) powi (bitlen a)"
    using bitlen_powi_bounds [OF a] by simp_all
  have B: "(2::rat) powi (bitlen b - 1) \<le> of_int b" "of_int b < (2::rat) powi (bitlen b)"
    using bitlen_powi_bounds [OF b] by simp_all
  have bpos: "0 < rat_of_int b" using b by simp
  have "rat_of_int a < 2 powi (bitlen a)" by (rule A(2))
  also have "\<dots> = 2 powi (e + 1) * 2 powi (bitlen b - 1)"
    by (simp add: e_def flip: power_int_add)
  also have "\<dots> \<le> 2 powi (e + 1) * of_int b"
    using B(1) by (intro mult_left_mono) simp_all
  finally have upper: "\<bar>q\<bar> < 2 powi (e + 1)"
    using bpos by (simp add: q pos_divide_less_eq)
  have "2 powi (e - 1) * rat_of_int b < 2 powi (e - 1) * 2 powi (bitlen b)"
    using B(2) by (intro mult_strict_left_mono) simp_all
  also have "\<dots> = 2 powi (bitlen a - 1)"
    by (simp add: e_def flip: power_int_add)
  also have "\<dots> \<le> of_int a" by (rule A(1))
  finally have lower: "2 powi (e - 1) < \<bar>q\<bar>"
    using bpos by (simp add: q pos_less_divide_eq)
  have bin: "binade q = (if (2::rat) powi e \<le> \<bar>q\<bar> then e else e - 1)"
    by (simp add: binade_def ab e_def Let_def)
  show "2 powi (binade q) \<le> \<bar>q\<bar>"
    using lower by (simp add: bin)
  show "\<bar>q\<bar> < 2 powi (binade q + 1)"
    using upper by (auto simp: bin not_le)
qed

lemma binade_unique:
  assumes "2 powi e \<le> \<bar>q\<bar>" "\<bar>q\<bar> < 2 powi (e + 1)"
  shows "binade q = e"
proof -
  have "0 < (2::rat) powi e" by simp
  with assms(1) have "0 < \<bar>q\<bar>" by linarith
  then have nz: "q \<noteq> 0" by simp
  have "(2::rat) powi e < 2 powi (binade q + 1)"
    using assms(1) binade_bounds(2) [OF nz] by (rule le_less_trans)
  then have 1: "e < binade q + 1"
    by (metis power_int_increasing not_less one_le_numeral)
  have "(2::rat) powi (binade q) < 2 powi (e + 1)"
    using binade_bounds(1) [OF nz] assms(2) by (rule le_less_trans)
  then have 2: "binade q < e + 1"
    by (metis power_int_increasing not_less one_le_numeral)
  from 1 2 show ?thesis by simp
qed

lemma binade_minus [simp]: "binade (- q) = binade q"
  by (simp add: binade_def)

lemma binade_mono_abs:
  assumes "p \<noteq> 0" "\<bar>p\<bar> \<le> \<bar>q\<bar>"
  shows "binade p \<le> binade q"
proof -
  from assms have nz: "q \<noteq> 0" by auto
  have "(2::rat) powi (binade p) \<le> \<bar>p\<bar>" by (rule binade_bounds(1) [OF assms(1)])
  also note assms(2)
  also have "\<bar>q\<bar> < 2 powi (binade q + 1)" by (rule binade_bounds(2) [OF nz])
  finally have "binade p < binade q + 1"
    by (metis power_int_increasing not_less one_le_numeral)
  then show ?thesis by simp
qed

subsection \<open>Rounding to a double\<close>

lemma ulp_pos [simp]: "0 < ulp q"
  by (simp add: ulp_def)

lemma ulp_nonzero [simp]: "ulp q \<noteq> 0"
  using ulp_pos [of q] by (simp only: less_imp_neq [THEN not_sym] not_False_eq_True)

lemma ulp_minus [simp]: "ulp (- q) = ulp q"
  by (simp add: ulp_def)

lemma round_double_zero [simp]: "round_double 0 = 0"
  by (simp add: round_double_def)

lemma round_double_minus: "round_double (- q) = - round_double q"
  by (simp add: round_double_def round_half_even_minus)

lemma round_double_error: "\<bar>round_double q - q\<bar> \<le> ulp q / 2"
proof (cases "q = 0")
  case True
  then show ?thesis by (simp add: less_imp_le)
next
  case False
  have "\<bar>round_double q - q\<bar> = \<bar>of_int (round_half_even (q / ulp q)) - q / ulp q\<bar> * ulp q"
  proof -
    have "round_double q - q = (of_int (round_half_even (q / ulp q)) - q / ulp q) * ulp q"
      using False ulp_pos [of q] by (simp add: round_double_def field_simps)
    then show ?thesis
      using ulp_pos [of q] by (simp add: abs_mult less_imp_le)
  qed
  also have "\<dots> \<le> 1 / 2 * ulp q"
    using round_half_even_error [of "q / ulp q"]
    by (intro mult_right_mono) (simp_all add: less_imp_le)
  finally show ?thesis by simp
qed

lemma ulp_normal: "- 1022 \<le> binade q \<Longrightarrow> ulp q = 2 powi (binade q) / 2 ^ 52"
  by (simp add: ulp_def max_absorb1 power_int_diff)

lemma ulp_le:
  assumes "q \<noteq> 0"
  shows "ulp q \<le> max (\<bar>q\<bar> / 2 ^ 52) (1 / 2 ^ 1074)"
proof (cases "- 1022 \<le> binade q")
  case True
  then have "ulp q = 2 powi (binade q) / 2 ^ 52" by (rule ulp_normal)
  also have "\<dots> \<le> \<bar>q\<bar> / 2 ^ 52"
    using binade_bounds(1) [OF assms] by (simp add: divide_right_mono)
  finally show ?thesis by simp
next
  case False
  then have "ulp q = 2 powi (- 1074)" by (simp add: ulp_def max_absorb2)
  also have "\<dots> = 1 / 2 ^ 1074" by (simp add: power_int_minus_divide)
  finally show ?thesis by simp
qed

lemma round_double_sign: "0 \<le> q \<Longrightarrow> 0 \<le> round_double q"
  by (simp add: round_double_def round_half_even_nonneg less_imp_le)

lemma round_double_at:
  assumes "2 powi e \<le> \<bar>q\<bar>" "\<bar>q\<bar> < 2 powi (e + 1)" "- 1022 \<le> e"
  shows "round_double q = of_int (round_half_even (q / 2 powi (e - 52))) * 2 powi (e - 52)"
proof -
  have "binade q = e" using assms(1,2) by (rule binade_unique)
  moreover have "q \<noteq> 0"
  proof
    assume "q = 0"
    with assms(1) have "(2::rat) powi e \<le> 0" by simp
    moreover have "0 < (2::rat) powi e" by simp
    ultimately show False by linarith
  qed
  ultimately show ?thesis
    using assms(3) by (simp add: round_double_def ulp_def max_absorb1)
qed

text \<open>Below the top of its binade, a positive rational rounds to at most that top.\<close>

lemma round_double_upper:
  assumes "0 < q"
  shows "round_double q \<le> 2 powi (max (binade q) (- 1022) + 1)"
proof -
  define E where "E = max (binade q) (- 1022)"
  from assms have nz: "q \<noteq> 0" by simp
  have u: "ulp q = 2 powi (E - 52)" by (simp add: ulp_def E_def)
  have "q < 2 powi (binade q + 1)"
    using binade_bounds(2) [OF nz] assms by simp
  also have "\<dots> \<le> 2 powi (E + 1)"
    by (intro power_int_increasing) (simp_all add: E_def)
  also have "\<dots> = 2 ^ 53 * ulp q"
    by (simp add: u power_int_diff power_int_add)
  finally have "q / ulp q \<le> of_int (2 ^ 53)"
    by (simp add: pos_divide_le_eq less_imp_le)
  then have "round_half_even (q / ulp q) \<le> round_half_even (of_int (2 ^ 53))"
    by (rule round_half_even_mono)
  then have "round_half_even (q / ulp q) \<le> 2 ^ 53"
    by (simp only: round_half_even_of_int)
  then have "rat_of_int (round_half_even (q / ulp q)) \<le> of_int (2 ^ 53)"
    by (simp only: of_int_le_iff)
  then have "round_double q \<le> 2 ^ 53 * ulp q"
    using nz by (simp add: round_double_def)
  also have "\<dots> = 2 powi (E + 1)"
    by (simp add: u power_int_diff power_int_add)
  finally show ?thesis by (simp add: E_def)
qed

text \<open>A positive normal rational rounds to at least the bottom of its binade.\<close>

lemma round_double_lower:
  assumes "0 < q" "- 1022 \<le> binade q"
  shows "2 powi (binade q) \<le> round_double q"
proof -
  from assms have nz: "q \<noteq> 0" by simp
  have u: "ulp q = 2 powi (binade q) / 2 ^ 52" using assms(2) by (rule ulp_normal)
  have "2 ^ 52 * ulp q = 2 powi (binade q)" by (simp add: u)
  also have "\<dots> \<le> q" using binade_bounds(1) [OF nz] assms by simp
  finally have "of_int (2 ^ 52) \<le> q / ulp q"
    by (simp add: pos_le_divide_eq)
  then have "round_half_even (of_int (2 ^ 52)) \<le> round_half_even (q / ulp q)"
    by (rule round_half_even_mono)
  then have "2 ^ 52 \<le> round_half_even (q / ulp q)"
    by (simp only: round_half_even_of_int)
  then have "rat_of_int (2 ^ 52) \<le> of_int (round_half_even (q / ulp q))"
    by (simp only: of_int_le_iff)
  then have "2 ^ 52 * ulp q \<le> round_double q"
    using nz by (simp add: round_double_def)
  then show ?thesis by (simp add: u)
qed

lemma round_double_mono_pos:
  assumes "0 < p" "p \<le> q"
  shows "round_double p \<le> round_double q"
proof -
  from assms have q: "0 < q" and nz: "p \<noteq> 0" "q \<noteq> 0" by simp_all
  define Ep where "Ep = max (binade p) (- 1022)"
  define Eq where "Eq = max (binade q) (- 1022)"
  have "binade p \<le> binade q"
    using assms by (intro binade_mono_abs) simp_all
  then have le: "Ep \<le> Eq" by (simp add: Ep_def Eq_def)
  show ?thesis
  proof (cases "Ep = Eq")
    case True
    then have u: "ulp p = ulp q" by (simp add: ulp_def Ep_def Eq_def)
    have "p / ulp q \<le> q / ulp q"
      using assms(2) by (simp add: divide_right_mono less_imp_le)
    then have "round_half_even (p / ulp q) \<le> round_half_even (q / ulp q)"
      by (rule round_half_even_mono)
    then have "rat_of_int (round_half_even (p / ulp q)) * ulp q \<le> of_int (round_half_even (q / ulp q)) * ulp q"
      by (intro mult_right_mono) (simp_all add: less_imp_le)
    then show ?thesis
      using nz by (simp add: round_double_def u)
  next
    case False
    with le have lt: "Ep < Eq" by simp
    then have normal: "- 1022 \<le> binade q" and Eq: "Eq = binade q"
      by (simp_all add: Ep_def Eq_def max_def split: if_splits)
    have "round_double p \<le> 2 powi (Ep + 1)"
      using round_double_upper [OF assms(1)] by (simp add: Ep_def)
    also have "\<dots> \<le> 2 powi Eq"
      using lt by (intro power_int_increasing) simp_all
    also have "\<dots> \<le> round_double q"
      using round_double_lower [OF q normal] by (simp add: Eq)
    finally show ?thesis .
  qed
qed

lemma round_double_mono:
  assumes "p \<le> q"
  shows "round_double p \<le> round_double q"
proof -
  consider "0 < p" | "p \<le> 0" "0 \<le> q" | "q < 0" using assms by linarith
  then show ?thesis
  proof cases
    case 1
    then show ?thesis using assms by (rule round_double_mono_pos)
  next
    case 2
    have "round_double p \<le> 0"
      using round_double_sign [of "- p"] 2(1) by (simp add: round_double_minus)
    also have "0 \<le> round_double q" using 2(2) by (rule round_double_sign)
    finally show ?thesis .
  next
    case 3
    then have "0 < - q" "- q \<le> - p" using assms by simp_all
    then have "round_double (- q) \<le> round_double (- p)" by (rule round_double_mono_pos)
    then show ?thesis by (simp add: round_double_minus)
  qed
qed

subsection \<open>The sample codec\<close>

lemma py_float_format_f: "py_float (format_f k (Fin v)) = Inr (round_double (decimal_value k v))"
  by (simp add: py_float_def parse_decimal_format_f decimal_value_def)

lemma b2c_c2b:
  "b2c (c2b c) =
     Inr \<lparr>real_part = round_double (decimal_value 10 (real_part c)),
          imag_part = round_double (decimal_value 10 (imag_part c))\<rparr>"
  by (simp add: b2c_def split_on_c2b py_float_format_f)

lemma decimal_value_error: "\<bar>decimal_value k v - v\<bar> \<le> 1 / (2 * 10 ^ k)"
proof -
  define r where "r = round_half_even (\<bar>v\<bar> * 10 ^ k)"
  have "0 \<le> r" unfolding r_def by (rule round_half_even_nonneg) simp
  then have n: "(of_nat (rounded_digits k v) :: rat) = of_int r"
    by (simp add: rounded_digits_def r_def)
  have "\<bar>of_int r - \<bar>v\<bar> * 10 ^ k\<bar> \<le> 1 / 2"
    unfolding r_def by (rule round_half_even_error)
  then have "\<bar>of_int r - \<bar>v\<bar> * 10 ^ k\<bar> / 10 ^ k \<le> (1 / 2) / 10 ^ k"
    by (intro divide_right_mono) simp_all
  then have "\<bar>(of_int r - \<bar>v\<bar> * 10 ^ k) / 10 ^ k\<bar> \<le> (1 / 2) / 10 ^ k"
    by (simp add: abs_divide power_abs)
  then have e: "\<bar>of_int r / 10 ^ k - \<bar>v\<bar>\<bar> \<le> 1 / (2 * 10 ^ k)"
    by (simp add: diff_divide_distrib)
  show ?thesis
  proof (cases "v < 0")
    case True
    then have "decimal_value k v - v = - (of_int r / 10 ^ k - \<bar>v\<bar>)"
      by (simp add: decimal_value_def n)
    with e show ?thesis by (simp only: abs_minus_cancel)
  next
    case False
    then have "decimal_value k v - v = of_int r / 10 ^ k - \<bar>v\<bar>"
      by (simp add: decimal_value_def n)
    with e show ?thesis by simp
  qed
qed

lemma round_double_error_bounded:
  assumes "\<bar>q\<bar> \<le> B" "1 \<le> B"
  shows "\<bar>round_double q - q\<bar> \<le> B / 2 ^ 53"
proof (cases "q = 0")
  case True
  with assms(2) show ?thesis by simp
next
  case False
  have "(1::rat) / 2 ^ 1074 \<le> 1 / 2 ^ 52"
    by (intro divide_left_mono power_increasing) simp_all
  also have "\<dots> \<le> B / 2 ^ 52"
    using assms(2) by (simp add: divide_right_mono)
  finally have small: "(1::rat) / 2 ^ 1074 \<le> B / 2 ^ 52" .
  have "\<bar>q\<bar> / 2 ^ 52 \<le> B / 2 ^ 52"
    using assms(1) by (simp add: divide_right_mono)
  with small have "max (\<bar>q\<bar> / 2 ^ 52) (1 / 2 ^ 1074) \<le> B / 2 ^ 52" by simp
  with ulp_le [OF False] have "ulp q \<le> B / 2 ^ 52" by (rule order_trans)
  then have "ulp q / 2 \<le> B / 2 ^ 53" by simp
  with round_double_error [of q] show ?thesis by (rule order_trans)
qed

lemma component_round_trip:
  assumes "\<bar>v\<bar> \<le> 10 ^ 6"
  shows "\<bar>round_double (decimal_value 10 v) - v\<bar> \<le> 1 / 10 ^ 9"
proof -
  let ?w = "decimal_value 10 v"
  have d: "\<bar>?w - v\<bar> \<le> 1 / (2 * 10 ^ 10)" by (rule decimal_value_error)
  then have "\<bar>?w\<bar> \<le> \<bar>v\<bar> + 1 / (2 * 10 ^ 10)" by linarith
  with assms have "\<bar>?w\<bar> \<le> 10 ^ 6 + 1" by simp
  then have "\<bar>round_double ?w - ?w\<bar> \<le> (10 ^ 6 + 1) / 2 ^ 53"
    by (rule round_double_error_bounded) simp
  with d have "\<bar>round_double ?w - v\<bar> \<le> (10 ^ 6 + 1) / 2 ^ 53 + 1 / (2 * 10 ^ 10)"
    by linarith
  also have "\<dots> \<le> 1 / 10 ^ 9" by simp
  finally show ?thesis .
qed

subsection \<open>Field names\<close>

lemma append_sep_inject:
  assumes "c \<notin> set a" "c \<notin> set a'" "a @ c # r = a' @ c # r'"
  shows "a = a' \<and> r = r'"
  using assms
proof (induction a arbitrary: a')
  case Nil
  then show ?case by (cases a') auto
next
  case (Cons h a)
  then show ?case by (cases a') auto
qed

lemma hd_str_nat_digit: "is_digit (hd (str_nat n))"
  using str_nat_digits [of n] str_nat_nonempty [of n] by (cases "str_nat n") simp_all

lemma format_f_head:
  "hd (format_f k v) = CHR ''-'' \<longleftrightarrow> sign_bit v"
proof (cases "sign_bit v")
  case True
  then show ?thesis by (simp add: format_f_def Let_def)
next
  case False
  then have "hd (format_f k v) = hd (str_nat (rounded_digits k (float_val v) div 10 ^ k))"
    using str_nat_nonempty by (simp add: format_f_def Let_def rounded_digits_def)
  with False show ?thesis
    using hd_str_nat_digit is_digit_not_punct by metis
qed

lemma format_f_eq_iff:
  "format_f k v = format_f k w \<longleftrightarrow>
     sign_bit v = sign_bit w \<and> rounded_digits k (float_val v) = rounded_digits k (float_val w)"
proof
  assume eq: "format_f k v = format_f k w"
  then have sign: "sign_bit v = sign_bit w"
    using format_f_head [of k v] format_f_head [of k w] by simp
  from eq have "parse_decimal (format_f k v) = parse_decimal (format_f k w)" by simp
  then have "(if sign_bit v then - 1 else 1) * (rat_of_nat (rounded_digits k (float_val v)) / 10 ^ k)
           = (if sign_bit w then - 1 else 1) * (rat_of_nat (rounded_digits k (float_val w)) / 10 ^ k)"
    by (simp only: parse_decimal_format_f option.inject)
  with sign have "rat_of_nat (rounded_digits k (float_val v)) = rat_of_nat (rounded_digits k (float_val w))"
    by (simp split: if_splits)
  then have "rounded_digits k (float_val v) = rounded_digits k (float_val w)"
    by (simp only: of_nat_eq_iff)
  with sign show "sign_bit v = sign_bit w
      \<and> rounded_digits k (float_val v) = rounded_digits k (float_val w)" ..
next
  assume "sign_bit v = sign_bit w
      \<and> rounded_digits k (float_val v) = rounded_digits k (float_val w)"
  then show "format_f k v = format_f k w"
    by (simp add: format_f_def rounded_digits_def Let_def)
qed

lemma gen_field_layout:
  "gen_field x y z t temp =
     (if temp then ''temp_'' else ''formal_'') @
     CHR ''x'' # str_int x @ CHR ''_'' # (CHR ''y'' # str_int y @ CHR ''_'' #
       (CHR ''z'' # str_int z @ CHR ''_'' # (CHR ''t'' # format_f 4 t)))"
  by (simp add: gen_field_def)

lemma gen_field_coords_inject:
  assumes "str_int x @ CHR ''_'' # (CHR ''y'' # str_int y @ CHR ''_'' #
             (CHR ''z'' # str_int z @ CHR ''_'' # (CHR ''t'' # ft)))
         = str_int x' @ CHR ''_'' # (CHR ''y'' # str_int y' @ CHR ''_'' #
             (CHR ''z'' # str_int z' @ CHR ''_'' # (CHR ''t'' # ft')))"
  shows "x = x' \<and> y = y' \<and> z = z' \<and> ft = ft'"
proof -
  from append_sep_inject [OF str_int_no_underscore str_int_no_underscore assms]
  have x: "str_int x = str_int x'"
    and r1: "str_int y @ CHR ''_'' # (CHR ''z'' # str_int z @ CHR ''_'' # (CHR ''t'' # ft))
           = str_int y' @ CHR ''_'' # (CHR ''z'' # str_int z' @ CHR ''_'' # (CHR ''t'' # ft'))"
    by simp_all
  from append_sep_inject [OF str_int_no_underscore str_int_no_underscore r1]
  have y: "str_int y = str_int y'"
    and r2: "str_int z @ CHR ''_'' # (CHR ''t'' # ft) = str_int z' @ CHR ''_'' # (CHR ''t'' # ft')"
    by simp_all
  from append_sep_inject [OF str_int_no_underscore str_int_no_underscore r2]
  have z: "str_int z = str_int z'" and t: "ft = ft'" by simp_all
  from x y z t show ?thesis by (simp add: str_int_inject)
qed

lemma gen_field_eq_iff:
  "gen_field x y z t temp = gen_field x' y' z' t' temp' \<longleftrightarrow>
     x = x' \<and> y = y' \<and> z = z' \<and> temp = temp' \<and> format_f 4 t = format_f 4 t'"
proof
  assume eq: "gen_field x y z t temp = gen_field x' y' z' t' temp'"
  then have "hd (gen_field x y z t temp) = hd (gen_field x' y' z' t' temp')" by simp
  then have temp: "temp = temp'"
    by (simp add: gen_field_layout split: if_splits)
  with eq have
    "str_int x @ CHR ''_'' # (CHR ''y'' # str_int y @ CHR ''_'' #
       (CHR ''z'' # str_int z @ CHR ''_'' # (CHR ''t'' # format_f 4 t)))
   = str_int x' @ CHR ''_'' # (CHR ''y'' # str_int y' @ CHR ''_'' #
       (CHR ''z'' # str_int z' @ CHR ''_'' # (CHR ''t'' # format_f 4 t')))"
    by (simp add: gen_field_layout)
  from gen_field_coords_inject [OF this] temp
  show "x = x' \<and> y = y' \<and> z = z' \<and> temp = temp' \<and> format_f 4 t = format_f 4 t'" by simp
next
  assume "x = x' \<and> y = y' \<and> z = z' \<and> temp = temp' \<and> format_f 4 t = format_f 4 t'"
  then show "gen_field x y z t temp = gen_field x' y' z' t' temp'"
    by (simp add: gen_field_def)
qed

lemma gen_field_prefix_temp: "prefix ''temp_'' (gen_field x y z t True)"
  by (simp add: gen_field_def)

lemma gen_field_prefix_formal: "prefix ''formal_'' (gen_field x y z t False)"
  by (simp add: gen_field_def)

lemma formal_not_temp: "prefix ''formal_'' f \<Longrightarrow> \<not> prefix ''temp_'' f"
  by (auto simp: prefix_def)

lemma round_half_even_eqI:
  assumes "of_int n - 1 / 2 < q" "q < of_int n + 1 / 2"
  shows "round_half_even q = n"
proof -
  have "\<bar>of_int (round_half_even q) - q\<bar> \<le> 1 / 2" by (rule round_half_even_error)
  with assms have "rat_of_int (round_half_even q) < of_int n + 1"
    "rat_of_int n < of_int (round_half_even q) + 1"
    by linarith+
  then have "rat_of_int (round_half_even q) < of_int (n + 1)"
    "rat_of_int n < of_int (round_half_even q + 1)"
    by simp_all
  then have "round_half_even q < n + 1" "n < round_half_even q + 1"
    by (simp_all only: of_int_less_iff)
  then show ?thesis by simp
qed

lemma rounded_digits_eqI:
  assumes "of_nat n - 1 / 2 < \<bar>v\<bar> * 10 ^ k" "\<bar>v\<bar> * 10 ^ k < of_nat n + 1 / 2"
  shows "rounded_digits k v = n"
proof -
  have "round_half_even (\<bar>v\<bar> * 10 ^ k) = int n"
    using assms by (intro round_half_even_eqI) simp_all
  then show ?thesis by (simp add: rounded_digits_def)
qed

section \<open>The store\<close>

lemma map_of_filter_keys:
  "map_of (filter (\<lambda>(k, v). P k) al) f = (if P f then map_of al f else None)"
  by (induction al) auto

lemma hget_hdel: "hget f (hdel fs s) = (if f \<in> set fs then None else hget f s)"
  by (simp add: hget_def hdel_def Let_def map_of_filter_keys)

lemma hscan_iter_fields:
  "set (map fst (hscan_iter p s)) = {k \<in> fst ` set (root_fields s). prefix p k}"
  by (auto simp: hscan_iter_def image_iff)

lemma hscan_iter_hdel_scanned: "hscan_iter p (hdel (map fst (hscan_iter p s)) s) = []"
  by (auto simp: hscan_iter_def hdel_def Let_def filter_empty_conv image_iff)

lemma hscan_iter_empty_iff:
  "hscan_iter p s = [] \<longleftrightarrow> (\<forall>k \<in> fst ` set (root_fields s). \<not> prefix p k)"
  by (auto simp: hscan_iter_def filter_empty_conv)

lemma root_key_not_temp: "\<not> prefix ''quantum:temp:'' ROOT_HASH_KEY"
  by (simp add: ROOT_HASH_KEY_def)

lemma root_key_not_in_keys: "ROOT_HASH_KEY \<notin> set (keys ''quantum:temp:'' s)"
  by (simp add: keys_def root_key_not_temp)

lemma delete_temp_keys_root:
  "root_fields (delete (keys ''quantum:temp:'' s) s) = root_fields s"
  "root_ttl (delete (keys ''quantum:temp:'' s) s) = root_ttl s"
  by (simp_all add: delete_def root_key_not_in_keys Let_def)

lemma keys_delete_temp_keys: "keys ''quantum:temp:'' (delete (keys ''quantum:temp:'' s) s) = []"
  by (auto simp: keys_def delete_def all_keys_def Let_def root_key_not_temp filter_empty_conv)

lemma clean_temp_data_client:
  "redis_client w = Some c \<Longrightarrow>
     clean_temp_data w = w\<lparr>redis_client := Some (c\<lparr>pool_open := True\<rparr>), server := evict (server w)\<rparr>"
  by (simp add: clean_temp_data_def evict_def Let_def)

lemma clean_temp_data_no_client: "redis_client w = None \<Longrightarrow> clean_temp_data w = w"
  by (simp add: clean_temp_data_def)

lemma hscan_iter_evict: "hscan_iter ''temp_'' (evict s) = []"
proof -
  define s1 where
    "s1 = (if map fst (hscan_iter ''temp_'' s) \<noteq> [] then hdel (map fst (hscan_iter ''temp_'' s)) s else s)"
  have "hscan_iter ''temp_'' s1 = []"
    by (simp add: s1_def hscan_iter_hdel_scanned)
  moreover have "root_fields (evict s) = root_fields s1"
    unfolding evict_def s1_def [symmetric] Let_def by (simp add: delete_temp_keys_root)
  ultimately show ?thesis by (simp add: hscan_iter_def)
qed

lemma keys_evict: "keys ''quantum:temp:'' (evict s) = []"
  unfolding evict_def Let_def by (simp add: keys_delete_temp_keys)

lemma hget_evict: "hget f (evict s) = (if prefix ''temp_'' f then None else hget f s)"
proof -
  define fs where "fs = map fst (hscan_iter ''temp_'' s)"
  define s1 where "s1 = (if fs \<noteq> [] then hdel fs s else s)"
  have in_fs: "f \<in> set fs \<longleftrightarrow> prefix ''temp_'' f \<and> f \<in> fst ` set (root_fields s)"
    unfolding fs_def hscan_iter_fields by auto
  have absent: "f \<notin> fst ` set (root_fields s) \<Longrightarrow> hget f s = None"
    by (simp add: hget_def map_of_eq_None_iff)
  have "hget f s1 = (if prefix ''temp_'' f then None else hget f s)"
  proof (cases "fs = []")
    case True
    then have "s1 = s" by (simp add: s1_def)
    moreover from True in_fs have "prefix ''temp_'' f \<Longrightarrow> f \<notin> fst ` set (root_fields s)" by simp
    ultimately show ?thesis using absent by auto
  next
    case False
    then have "s1 = hdel fs s" by (simp add: s1_def)
    then show ?thesis using in_fs absent by (auto simp: hget_hdel)
  qed
  moreover have "root_fields (evict s) = root_fields s1"
    unfolding evict_def s1_def fs_def Let_def by (simp add: delete_temp_keys_root)
  ultimately show ?thesis by (simp add: hget_def)
qed

lemma other_keys_evict:
  "other_keys (evict s) = filter (\<lambda>k. \<not> prefix ''quantum:temp:'' k) (other_keys s)"
proof -
  define s1 where
    "s1 = (if map fst (hscan_iter ''temp_'' s) \<noteq> [] then hdel (map fst (hscan_iter ''temp_'' s)) s else s)"
  have o: "other_keys s1 = other_keys s" by (simp add: s1_def hdel_def Let_def)
  have "other_keys (if keys ''quantum:temp:'' s1 \<noteq> [] then delete (keys ''quantum:temp:'' s1) s1 else s1)
      = filter (\<lambda>k. \<not> prefix ''quantum:temp:'' k) (other_keys s1)"
  proof (cases "keys ''quantum:temp:'' s1 = []")
    case True
    then have "\<forall>k \<in> set (other_keys s1). \<not> prefix ''quantum:temp:'' k"
      by (auto simp: keys_def all_keys_def filter_empty_conv)
    then have "filter (\<lambda>k. \<not> prefix ''quantum:temp:'' k) (other_keys s1) = other_keys s1"
      by (simp add: filter_id_conv)
    with True show ?thesis by simp
  next
    case False
    have "k \<in> set (other_keys s1) \<Longrightarrow>
        k \<notin> set (keys ''quantum:temp:'' s1) \<longleftrightarrow> \<not> prefix ''quantum:temp:'' k" for k
      by (auto simp: keys_def all_keys_def)
    then have "filter (\<lambda>k. k \<notin> set (keys ''quantum:temp:'' s1)) (other_keys s1)
             = filter (\<lambda>k. \<not> prefix ''quantum:temp:'' k) (other_keys s1)"
      by (intro filter_cong) simp_all
    with False show ?thesis
      by (simp add: delete_def Let_def root_key_not_in_keys)
  qed
  then show ?thesis
    unfolding evict_def s1_def [symmetric] Let_def o .
qed

subsection \<open>The memory threshold in double arithmetic\<close>

lemma round_double_eqI:
  assumes "2 powi e \<le> \<bar>q\<bar>" "\<bar>q\<bar> < 2 powi (e + 1)" "- 1022 \<le> e"
    and "of_int n - 1 / 2 < q / 2 powi (e - 52)" "q / 2 powi (e - 52) < of_int n + 1 / 2"
  shows "round_double q = of_int n * 2 powi (e - 52)"
  using round_double_at [OF assms(1-3)] round_half_even_eqI [OF assms(4,5)] by simp

lemma usage_pct_mono: "m \<le> n \<Longrightarrow> usage_pct m \<le> usage_pct n"
  unfolding usage_pct_def float_mul_def float_div_def MAX_MEMORY_MB_def
  by (intro round_double_mono mult_right_mono divide_right_mono) simp_all

lemma usage_pct_high_water: "usage_pct 7130316800 = 85"
proof -
  have 1: "round_double (7130316800 / 1024) = 6963200"
    using round_double_eqI [of 22 "7130316800 / 1024" 7476679068876800] by simp
  have 2: "round_double (6963200 / 1024) = 6800"
    using round_double_eqI [of 12 "6963200 / 1024" 7476679068876800] by simp
  have 3: "round_double (6800 / 8000) = 7656119366529843 / 9007199254740992"
    using round_double_eqI [of "- 1" "6800 / 8000" 7656119366529843] by simp
  have 4: "round_double (7656119366529843 / 9007199254740992 * 100) = 85"
    using round_double_eqI [of 6 "7656119366529843 / 9007199254740992 * 100" 5981343255101440] by simp
  have "usage_pct 7130316800 =
      round_double (round_double (round_double (round_double (7130316800 / 1024) / 1024) / 8000) * 100)"
    by (simp only: usage_pct_def float_mul_def float_div_def MAX_MEMORY_MB_def of_nat_numeral)
  then show ?thesis by (simp only: 1 2 3 4)
qed

lemma usage_pct_below_high_water: "usage_pct 7130316799 < 85"
proof -
  have 1: "round_double (7130316799 / 1024) = 7130316799 / 1024"
    using round_double_eqI [of 22 "7130316799 / 1024" 7476679067828224] by simp
  have 2: "round_double (7130316799 / 1024 / 1024) = 7130316799 / 1048576"
    using round_double_eqI [of 12 "7130316799 / 1024 / 1024" 7476679067828224] by simp
  have 3: "round_double (7130316799 / 1048576 / 8000) = 7656119365456101 / 9007199254740992"
    using round_double_eqI [of "- 1" "7130316799 / 1048576 / 8000" 7656119365456101] by simp
  have 4: "round_double (7656119365456101 / 9007199254740992 * 100) = 5981343254262579 / 70368744177664"
    using round_double_eqI [of 6 "7656119365456101 / 9007199254740992 * 100" 5981343254262579] by simp
  have "usage_pct 7130316799 =
      round_double (round_double (round_double (round_double (7130316799 / 1024) / 1024) / 8000) * 100)"
    by (simp only: usage_pct_def float_mul_def float_div_def MAX_MEMORY_MB_def of_nat_numeral)
  then have "usage_pct 7130316799 = 5981343254262579 / 70368744177664"
    by (simp only: 1 2 3 4)
  then show ?thesis by simp
qed

lemma usage_pct_threshold: "85 \<le> usage_pct used_memory \<longleftrightarrow> 7130316800 \<le> used_memory"
proof
  assume "85 \<le> usage_pct used_memory"
  show "7130316800 \<le> used_memory"
  proof (rule ccontr)
    assume "\<not> 7130316800 \<le> used_memory"
    then have "used_memory \<le> 7130316799" by simp
    then have "usage_pct used_memory \<le> usage_pct 7130316799" by (rule usage_pct_mono)
    with usage_pct_below_high_water \<open>85 \<le> usage_pct used_memory\<close> show False by linarith
  qed
next
  assume "7130316800 \<le> used_memory"
  then have "usage_pct 7130316800 \<le> usage_pct used_memory" by (rule usage_pct_mono)
  then show "85 \<le> usage_pct used_memory" by (simp only: usage_pct_high_water)
qed

lemma check_memory_usage_client:
  assumes "redis_client w = Some c"
  shows "check_memory_usage w used_memory =
           (if 7130316800 \<le> used_memory then clean_temp_data w
            else w\<lparr>redis_client := Some (c\<lparr>pool_open := True\<rparr>)\<rparr>,
            usage_pct used_memory)"
proof -
  have "clean_temp_data (w\<lparr>redis_client := Some (c\<lparr>pool_open := True\<rparr>)\<rparr>) = clean_temp_data w"
    using assms by (simp add: clean_temp_data_def Let_def)
  then show ?thesis
    using assms usage_pct_threshold [of used_memory]
    by (simp add: check_memory_usage_def Let_def usage_pct_def)
qed

subsection \<open>A batch, field by field\<close>

lemma fold_product:
  "fold f (List.product xs ys) = fold (\<lambda>x. fold (\<lambda>y. f (x, y)) ys) xs"
proof (induction xs)
  case Nil
  show ?case by simp
next
  case (Cons x xs)
  have "fold f (map (Pair x) ys) = fold (\<lambda>y. f (x, y)) ys"
    by (simp add: fold_map comp_def)
  with Cons show ?case by simp
qed

lemma batch_data_coords:
  assumes "shape psi = (nx, ny, nz)"
  shows "batch_data psi t temp =
           fold (\<lambda>(x, y, z). AList.update (gen_field (int x) (int y) (int z) t temp) (c2b (item psi x y z)))
             (coords nx ny nz) []"
  by (simp add: batch_data_def assms coords_def fold_product)

lemma set_coords: "set (coords nx ny nz) = {(x, y, z). x < nx \<and> y < ny \<and> z < nz}"
  by (auto simp: coords_def)

lemma length_coords: "length (coords nx ny nz) = nx * ny * nz"
  by (simp add: coords_def)

lemma distinct_coords: "distinct (coords nx ny nz)"
  by (simp add: coords_def distinct_product)

lemma fold_update_keys:
  "fst ` set (fold (\<lambda>c. AList.update (k c) (v c)) cs al) = k ` set cs \<union> fst ` set al"
  by (induction cs arbitrary: al) (auto simp: dom_update)

lemma fold_update_distinct:
  "distinct (map fst al) \<Longrightarrow> distinct (map fst (fold (\<lambda>c. AList.update (k c) (v c)) cs al))"
  by (induction cs arbitrary: al) (simp_all add: distinct_update)

lemma fold_update_other:
  "x \<notin> k ` set cs \<Longrightarrow> map_of (fold (\<lambda>c. AList.update (k c) (v c)) cs al) x = map_of al x"
  by (induction cs arbitrary: al) (simp_all add: update_conv')

lemma fold_update_lookup:
  assumes "inj_on k (set cs)" "c \<in> set cs"
  shows "map_of (fold (\<lambda>c. AList.update (k c) (v c)) cs al) (k c) = Some (v c)"
  using assms
proof (induction cs arbitrary: al)
  case Nil
  then show ?case by simp
next
  case (Cons a cs)
  from Cons.prems(1) have inj: "inj_on k (set cs)" by (simp add: inj_on_def)
  show ?case
  proof (cases "c \<in> set cs")
    case True
    with Cons.IH [OF inj] show ?thesis by simp
  next
    case False
    with Cons.prems(2) have ca: "c = a" by simp
    have "k a \<notin> k ` set cs"
    proof
      assume "k a \<in> k ` set cs"
      then obtain b where b: "b \<in> set cs" "k a = k b" by auto
      with Cons.prems(1) have "a = b" by (simp add: inj_on_def)
      with b(1) False ca show False by simp
    qed
    then show ?thesis
      by (simp add: ca fold_update_other update_conv')
  qed
qed

lemma fold_update_length:
  assumes "inj_on k (set cs)" "distinct cs"
  shows "length (fold (\<lambda>c. AList.update (k c) (v c)) cs []) = length cs"
proof -
  let ?r = "fold (\<lambda>c. AList.update (k c) (v c)) cs []"
  have d: "distinct (map fst ?r)" by (rule fold_update_distinct) simp
  have "length ?r = length (map fst ?r)" by simp
  also have "\<dots> = card (set (map fst ?r))" using d by (simp only: distinct_card)
  also have "set (map fst ?r) = k ` set cs" using fold_update_keys [of k v cs "[]"] by simp
  also have "card (k ` set cs) = card (set cs)" using assms(1) by (rule card_image)
  also have "\<dots> = length cs" using assms(2) by (rule distinct_card)
  finally show ?thesis .
qed

lemma gen_field_inj_on_coords:
  "inj_on (\<lambda>(x, y, z). gen_field (int x) (int y) (int z) t temp) A"
  by (auto simp: inj_on_def gen_field_eq_iff)

lemma fold_pairs_lookup:
  assumes "distinct (map fst data)"
  shows "map_of (fold (\<lambda>(f, v). AList.update f v) data al) x =
           (case map_of data x of Some v \<Rightarrow> Some v | None \<Rightarrow> map_of al x)"
  using assms
proof (induction data arbitrary: al)
  case Nil
  show ?case by simp
next
  case (Cons p data)
  obtain f v where p: "p = (f, v)" by (cases p)
  from Cons.prems p have nf: "map_of data f = None" and d: "distinct (map fst data)"
    by (simp_all add: map_of_eq_None_iff)
  show ?case
    using Cons.IH [OF d, of "AList.update f v al"] nf
    by (simp add: p update_conv' split: option.splits)
qed

lemma fold_pairs_nonempty:
  "data \<noteq> [] \<Longrightarrow> fold (\<lambda>(f, v). AList.update f v) data al \<noteq> []"
proof (induction data arbitrary: al rule: rev_induct)
  case Nil
  then show ?case by simp
next
  case (snoc p data)
  then show ?case by (cases p) simp
qed

lemma batch_data_lookup:
  assumes "shape psi = (nx, ny, nz)" "x < nx" "y < ny" "z < nz"
  shows "map_of (batch_data psi t temp) (gen_field (int x) (int y) (int z) t temp)
           = Some (c2b (item psi x y z))"
proof -
  let ?k = "\<lambda>(x, y, z). gen_field (int x) (int y) (int z) t temp"
  let ?v = "\<lambda>(x, y, z). c2b (item psi x y z)"
  have inj: "inj_on ?k (set (coords nx ny nz))" by (rule gen_field_inj_on_coords)
  have mem: "(x, y, z) \<in> set (coords nx ny nz)" using assms(2-4) by (simp add: set_coords)
  have "map_of (fold (\<lambda>c. AList.update (?k c) (?v c)) (coords nx ny nz) []) (?k (x, y, z))
      = Some (?v (x, y, z))"
    using inj mem by (rule fold_update_lookup)
  then show ?thesis by (simp add: batch_data_coords [OF assms(1)] case_prod_unfold)
qed

lemma batch_data_length:
  assumes "shape psi = (nx, ny, nz)"
  shows "length (batch_data psi t temp) = nx * ny * nz"
proof -
  let ?k = "\<lambda>(x, y, z). gen_field (int x) (int y) (int z) t temp"
  let ?v = "\<lambda>(x, y, z). c2b (item psi x y z)"
  have inj: "inj_on ?k (set (coords nx ny nz))" by (rule gen_field_inj_on_coords)
  have "length (fold (\<lambda>c. AList.update (?k c) (?v c)) (coords nx ny nz) [])
      = length (coords nx ny nz)"
    using inj distinct_coords by (rule fold_update_length)
  then show ?thesis
    by (simp add: batch_data_coords [OF assms] case_prod_unfold length_coords)
qed

lemma batch_data_distinct: "distinct (map fst (batch_data psi t temp))"
proof -
  obtain nx ny nz where sh: "shape psi = (nx, ny, nz)" by (cases "shape psi")
  have "distinct (map fst (fold (\<lambda>c. AList.update
      ((\<lambda>(x, y, z). gen_field (int x) (int y) (int z) t temp) c)
      ((\<lambda>(x, y, z). c2b (item psi x y z)) c)) (coords nx ny nz) []))"
    by (rule fold_update_distinct) simp
  then show ?thesis by (simp add: batch_data_coords [OF sh] case_prod_unfold)
qed

lemma batch_data_nonempty:
  assumes "shape psi = (nx, ny, nz)" "0 < nx * ny * nz"
  shows "batch_data psi t temp \<noteq> []"
  using batch_data_length [OF assms(1), of t temp] assms(2) by auto

lemma c2b_nonempty: "c2b c \<noteq> []"
  by (simp add: c2b_def)

lemma TEMP_DATA_TTL_pos: "TEMP_DATA_TTL \<noteq> 0"
  by (simp add: TEMP_DATA_TTL_def)

lemma batch_save_nonempty:
  assumes "shape psi = (nx, ny, nz)" "0 < nx * ny * nz"
  shows "batch_save psi t temp s =
           Inr (after_batch psi t temp s, \<lparr>res_count = nx * ny * nz, res_temp = temp\<rparr>)"
proof -
  have ne: "batch_data psi t temp \<noteq> []" using assms by (rule batch_data_nonempty)
  then have "fold (\<lambda>(f, v). AList.update f v) (batch_data psi t temp) (root_fields s) \<noteq> []"
    by (rule fold_pairs_nonempty)
  then show ?thesis
    using ne
    by (cases temp)
      (simp_all add: batch_save_def hmset_def expire_def after_batch_def Let_def TEMP_DATA_TTL_pos
        batch_data_length [OF assms(1)])
qed

lemma batch_save_empty:
  assumes "shape psi = (nx, ny, nz)" "nx * ny * nz = 0"
  shows "batch_save psi t temp s = Inl DataError"
proof -
  have "batch_data psi t temp = []"
    using batch_data_length [OF assms(1), of t temp] assms(2) by simp
  then show ?thesis by (simp add: batch_save_def hmset_def)
qed

lemma hget_after_batch:
  "hget f (after_batch psi t temp s) =
     (case map_of (batch_data psi t temp) f of Some v \<Rightarrow> Some v | None \<Rightarrow> hget f s)"
  by (simp add: hget_def after_batch_def fold_pairs_lookup [OF batch_data_distinct]
      split: option.splits)

lemma hget_after_batch_sample:
  assumes "shape psi = (nx, ny, nz)" "x < nx" "y < ny" "z < nz"
  shows "hget (gen_field (int x) (int y) (int z) t temp) (after_batch psi t temp s)
           = Some (c2b (item psi x y z))"
  by (simp add: hget_after_batch batch_data_lookup [OF assms])

lemma root_ttl_after_batch:
  "root_ttl (after_batch psi t temp s) = (if temp then Some TEMP_DATA_TTL else root_ttl s)"
  by (simp add: after_batch_def)

lemma hget_elapse_expired:
  "root_ttl s = Some d \<Longrightarrow> d \<le> dt \<Longrightarrow> hget f (elapse dt s) = None"
  by (simp add: elapse_def hget_def)

lemma hget_elapse_live:
  "root_ttl s = Some d \<Longrightarrow> dt < d \<Longrightarrow> hget f (elapse dt s) = hget f s"
  by (simp add: elapse_def hget_def)

lemma hget_elapse_persistent:
  "root_ttl s = None \<Longrightarrow> hget f (elapse dt s) = hget f s"
  by (simp add: elapse_def)

lemma b2c_error: "b2c b = Inl e \<Longrightarrow> e = ValueError"
  by (auto simp: b2c_def py_float_def split: list.splits sum.splits option.splits)

subsection \<open>Stores of encoded samples\<close>

lemma codec_store_iff: "codec_store s \<longleftrightarrow> snd ` set (root_fields s) \<subseteq> range c2b"
  by (auto simp: codec_store_def image_subset_iff)

lemma codec_store_hget:
  assumes "codec_store s" "hget f s = Some v"
  shows "\<exists>c. v = c2b c"
proof -
  from assms(2) have "(f, v) \<in> set (root_fields s)"
    by (simp add: hget_def map_of_SomeD)
  then have "v \<in> snd ` set (root_fields s)" by force
  with assms(1) have "v \<in> range c2b" by (auto simp: codec_store_iff)
  then show ?thesis by auto
qed

lemma update_values:
  "snd ` set (AList.update k v al) \<subseteq> insert v (snd ` set al)"
  by (induction al) auto

lemma fold_update_values:
  "snd ` set (fold (\<lambda>c. AList.update (k c) (v c)) cs al) \<subseteq> v ` set cs \<union> snd ` set al"
proof (induction cs arbitrary: al)
  case Nil
  show ?case by simp
next
  case (Cons c cs)
  have "snd ` set (fold (\<lambda>c. AList.update (k c) (v c)) cs (AList.update (k c) (v c) al))
      \<subseteq> v ` set cs \<union> snd ` set (AList.update (k c) (v c) al)"
    by (rule Cons.IH)
  also have "\<dots> \<subseteq> v ` set cs \<union> insert (v c) (snd ` set al)"
    using update_values [of "k c" "v c" al] by auto
  finally show ?case by auto
qed

lemma batch_data_values: "snd ` set (batch_data psi t temp) \<subseteq> range c2b"
proof -
  obtain nx ny nz where sh: "shape psi = (nx, ny, nz)" by (cases "shape psi")
  show ?thesis
    using fold_update_values [of "\<lambda>(x, y, z). gen_field (int x) (int y) (int z) t temp"
        "\<lambda>(x, y, z). c2b (item psi x y z)" "coords nx ny nz" "[]"]
    by (auto simp: batch_data_coords [OF sh] case_prod_unfold)
qed

lemma fold_pairs_values:
  "snd ` set (fold (\<lambda>(f, v). AList.update f v) data al) \<subseteq> snd ` set data \<union> snd ` set al"
  using fold_update_values [of fst snd data al] by (simp add: case_prod_unfold)

lemma codec_store_empty: "codec_store \<lparr>root_fields = [], root_ttl = e, other_keys = ks\<rparr>"
  by (simp add: codec_store_def)

lemma batch_save_codec_store:
  assumes "codec_store s" "batch_save psi t temp s = Inr (s', r)"
  shows "codec_store s'"
proof -
  let ?fs = "fold (\<lambda>(f, v). AList.update f v) (batch_data psi t temp) (root_fields s)"
  from assms(2) have "root_fields s' = ?fs \<or> root_fields s' = []"
    by (auto simp: batch_save_def hmset_def expire_def Let_def split: if_splits)
  moreover have "snd ` set ?fs \<subseteq> range c2b"
  proof -
    have "snd ` set ?fs \<subseteq> snd ` set (batch_data psi t temp) \<union> snd ` set (root_fields s)"
      by (rule fold_pairs_values)
    also have "\<dots> \<subseteq> range c2b"
      using batch_data_values [of psi t temp] assms(1) by (simp add: codec_store_iff)
    finally show ?thesis .
  qed
  ultimately have "snd ` set (root_fields s') \<subseteq> range c2b"
    by (elim disjE) simp_all
  then show ?thesis by (simp only: codec_store_iff)
qed

lemma evict_codec_store: "codec_store s \<Longrightarrow> codec_store (evict s)"
  by (auto simp: codec_store_def evict_def hdel_def delete_def Let_def)

lemma get_point_after_batch:
  assumes "shape psi = (nx, ny, nz)" "x < nx" "y < ny" "z < nz"
  shows "get_point (int x) (int y) (int z) t temp (after_batch psi t temp s) =
           Inr \<lparr>real_part = round_double (decimal_value 10 (real_part (item psi x y z))),
                imag_part = round_double (decimal_value 10 (imag_part (item psi x y z)))\<rparr>"
  by (simp add: get_point_def hget_after_batch_sample [OF assms] c2b_nonempty b2c_c2b)

section \<open>The claims\<close>

text \<open>
  C1. For every complex value whose real and imaginary parts lie in a reasonable range
  (here: of absolute value at most \<open>10^6\<close>), decoding the encoded sample succeeds and
  gives back each part to within \<open>10^-9\<close>.
\<close>

theorem c2b_b2c_round_trip:
  assumes "\<bar>real_part c\<bar> \<le> 10 ^ 6" and "\<bar>imag_part c\<bar> \<le> 10 ^ 6"
  shows "\<exists>d. b2c (c2b c) = Inr d
           \<and> \<bar>real_part d - real_part c\<bar> \<le> 1 / 10 ^ 9
           \<and> \<bar>imag_part d - imag_part c\<bar> \<le> 1 / 10 ^ 9"
  using component_round_trip [OF assms(1)] component_round_trip [OF assms(2)]
  by (simp add: b2c_c2b)

theorem c2b_b2c_round_trip_witness:
  "\<bar>real_part \<lparr>real_part = 1 / 3, imag_part = - 2 / 3\<rparr>\<bar> \<le> 10 ^ 6
   \<and> \<bar>imag_part \<lparr>real_part = 1 / 3, imag_part = - 2 / 3\<rparr>\<bar> \<le> 10 ^ 6
   \<and> (\<exists>d. b2c (c2b \<lparr>real_part = 1 / 3, imag_part = - 2 / 3\<rparr>) = Inr d
           \<and> \<bar>real_part d - 1 / 3\<bar> \<le> 1 / 10 ^ 9
           \<and> \<bar>imag_part d - (- 2 / 3)\<bar> \<le> 1 / 10 ^ 9)"
  using c2b_b2c_round_trip [of "\<lparr>real_part = 1 / 3, imag_part = - 2 / 3\<rparr>"]
  by simp

text \<open>
  C3. \<open>gen_field\<close> is a function of its five arguments, so equal arguments give the equal
  name. The claim that names differ whenever an argument differs fails for the time tag,
  which enters the name only through its rendering to four decimals: \<open>t = 0.0\<close> and
  \<open>t = 2^-20\<close> give the same name.
\<close>

theorem gen_field_time_collision:
  "Fin 0 \<noteq> Fin (1 / 2 ^ 20)
   \<and> gen_field 0 0 0 (Fin 0) False = gen_field 0 0 0 (Fin (1 / 2 ^ 20)) False"
proof -
  have "rounded_digits 4 0 = 0" by (rule rounded_digits_eqI) simp_all
  moreover have "rounded_digits 4 (1 / 2 ^ 20) = 0" by (rule rounded_digits_eqI) simp_all
  ultimately show ?thesis by (simp add: gen_field_eq_iff format_f_eq_iff)
qed

text \<open>
  C3, as amended. Two names are equal exactly when \<open>x\<close>, \<open>y\<close>, \<open>z\<close> and the namespace flag are
  equal and the two time tags have the same sign bit and the same digits after their
  magnitude is rounded to four decimals. So \<^verbatim>\<open>-0.0\<close> and \<^verbatim>\<open>0.0\<close> give different names, and two
  tags with the same sign bit give the same name exactly when their magnitudes, rounded to
  four decimals, are equal.
\<close>

theorem gen_field_injective_up_to_rounding:
  "gen_field x y z t temp = gen_field x' y' z' t' temp' \<longleftrightarrow>
     x = x' \<and> y = y' \<and> z = z' \<and> temp = temp'
     \<and> sign_bit t = sign_bit t'
     \<and> rounded_digits 4 (float_val t) = rounded_digits 4 (float_val t')"
  by (simp add: gen_field_eq_iff format_f_eq_iff)

theorem gen_field_injective_up_to_rounding_witness:
  "gen_field 1 2 3 (Fin (1 / 100)) True \<noteq> gen_field 1 2 4 (Fin (1 / 100)) True
   \<and> gen_field 1 2 3 (Fin (1 / 100)) True \<noteq> gen_field 1 2 3 (Fin (1 / 100)) False
   \<and> gen_field 1 2 3 (Fin (1 / 100)) True \<noteq> gen_field 1 2 3 (Fin (1 / 50)) True
   \<and> gen_field 1 2 3 (Fin (1 / 100)) True = gen_field 1 2 3 (Fin (100001 / 10000000)) True
   \<and> gen_field 1 2 3 (Fin (1 / 25000)) True \<noteq> gen_field 1 2 3 (Fin (3 / 50000)) True
   \<and> gen_field 1 2 3 NegZero True \<noteq> gen_field 1 2 3 (Fin 0) True
   \<and> gen_field 1 2 3 NegZero True = gen_field 1 2 3 (Fin (- 1 / 2 ^ 20)) True"
proof -
  have a: "rounded_digits 4 (1 / 100) = 100" by (rule rounded_digits_eqI) simp_all
  have b: "rounded_digits 4 (1 / 50) = 200" by (rule rounded_digits_eqI) simp_all
  have c: "rounded_digits 4 (100001 / 10000000) = 100" by (rule rounded_digits_eqI) simp_all
  have d: "rounded_digits 4 (1 / 25000) = 0" by (rule rounded_digits_eqI) simp_all
  have e: "rounded_digits 4 (3 / 50000) = 1" by (rule rounded_digits_eqI) simp_all
  have z: "rounded_digits 4 0 = 0" by (rule rounded_digits_eqI) simp_all
  have m: "rounded_digits 4 (- (1 / 1048576)) = 0" by (rule rounded_digits_eqI) simp_all
  show ?thesis
    using gen_field_injective_up_to_rounding [of 1 2 3 "Fin (1 / 100)" True 1 2 4 "Fin (1 / 100)" True]
      gen_field_injective_up_to_rounding [of 1 2 3 "Fin (1 / 100)" True 1 2 3 "Fin (1 / 100)" False]
      gen_field_injective_up_to_rounding [of 1 2 3 "Fin (1 / 100)" True 1 2 3 "Fin (1 / 50)" True]
      gen_field_injective_up_to_rounding [of 1 2 3 "Fin (1 / 100)" True 1 2 3 "Fin (100001 / 10000000)" True]
      gen_field_injective_up_to_rounding [of 1 2 3 "Fin (1 / 25000)" True 1 2 3 "Fin (3 / 50000)" True]
      gen_field_injective_up_to_rounding [of 1 2 3 NegZero True 1 2 3 "Fin 0" True]
      gen_field_injective_up_to_rounding [of 1 2 3 NegZero True 1 2 3 "Fin (- 1 / 2 ^ 20)" True]
    by (simp add: a b c d e z m)
qed

text \<open>
  C4. Once \<open>clean_temp_data\<close> has run on a process that holds a client, the root hash has no
  field in the temp namespace and the database no key under \<^verbatim>\<open>quantum:temp:\<close>, and every
  formal field present before is present after, with its value.
\<close>

theorem clean_temp_data_evicts_only_temp:
  assumes "redis_client w = Some c"
  shows "length (hscan_iter ''temp_'' (server (clean_temp_data w))) = 0
       \<and> length (keys ''quantum:temp:'' (server (clean_temp_data w))) = 0
       \<and> (\<forall>f v. prefix ''formal_'' f \<and> hget f (server w) = Some v
              \<longrightarrow> hget f (server (clean_temp_data w)) = Some v)"
  using assms
  by (simp add: clean_temp_data_client hscan_iter_evict keys_evict hget_evict formal_not_temp)

theorem clean_temp_data_evicts_only_temp_witness:
  "redis_client c4_world = Some \<lparr>pool_open = True\<rparr>
   \<and> hget ''temp_x0_y0_z0_t0.0100'' (server c4_world) = Some ''1.0000000000,0.0000000000''
   \<and> hget ''formal_x0_y0_z0_t0.0100'' (server c4_world) = Some ''0.5000000000,0.0000000000''
   \<and> length (hscan_iter ''temp_'' (server (clean_temp_data c4_world))) = 0
   \<and> length (keys ''quantum:temp:'' (server (clean_temp_data c4_world))) = 0
   \<and> hget ''formal_x0_y0_z0_t0.0100'' (server (clean_temp_data c4_world))
       = Some ''0.5000000000,0.0000000000''"
proof -
  have c: "redis_client c4_world = Some \<lparr>pool_open = True\<rparr>" by (simp add: c4_world_def)
  have t: "hget ''temp_x0_y0_z0_t0.0100'' (server c4_world) = Some ''1.0000000000,0.0000000000''"
    by (simp add: c4_world_def hget_def)
  have f: "hget ''formal_x0_y0_z0_t0.0100'' (server c4_world) = Some ''0.5000000000,0.0000000000''"
    by (simp add: c4_world_def hget_def)
  have p: "prefix ''formal_'' ''formal_x0_y0_z0_t0.0100''" by simp
  from clean_temp_data_evicts_only_temp [OF c] p f c t show ?thesis by blast
qed

text \<open>
  C10. With no client handle, \<open>check_memory_usage\<close> returns \<open>0.0\<close> and \<open>clean_temp_data\<close> returns,
  both leaving every part of the state as it was.
\<close>

theorem no_client_no_effect:
  assumes "redis_client w = None"
  shows "check_memory_usage w used_memory = (w, 0) \<and> clean_temp_data w = w"
  using assms by (simp add: check_memory_usage_def clean_temp_data_def)

theorem no_client_no_effect_witness:
  "redis_client c10_world = None
   \<and> check_memory_usage c10_world 8000000000 = (c10_world, 0)
   \<and> clean_temp_data c10_world = c10_world"
proof -
  have c: "redis_client c10_world = None" by (simp add: c10_world_def)
  from no_client_no_effect [OF c, of 8000000000] c show ?thesis by simp
qed

text \<open>
  C8. A second call of \<open>graceful_exit\<close> finds the flag set by the first: it returns
  without raising and leaves the whole state as the first call left it.
\<close>

theorem graceful_exit_idempotent:
  "graceful_exit (fst (graceful_exit w)) = (fst (graceful_exit w), Returned)"
proof -
  have "EXIT_FLAG (clean_temp_data v) = EXIT_FLAG v" for v
    by (simp add: clean_temp_data_def Let_def split: option.splits)
  then have "EXIT_FLAG (fst (graceful_exit w))"
    by (simp add: graceful_exit_def Let_def split: option.splits)
  then show ?thesis
    by (simp add: graceful_exit_def [of "fst (graceful_exit w)"])
qed

theorem graceful_exit_idempotent_witness:
  "snd (graceful_exit c8_world) = SystemExit 0
   \<and> graceful_exit (fst (graceful_exit c8_world)) = (fst (graceful_exit c8_world), Returned)"
  using graceful_exit_idempotent [of c8_world]
  by (simp add: graceful_exit_def c8_world_def Let_def)

text \<open>
  C5. For a process that holds a client: when the reported \<open>used_memory\<close> is at least 85% of
  the budget of \<open>MAX_MEMORY_MB\<close> megabytes, \<open>check_memory_usage\<close> returns in the state that
  \<open>clean_temp_data\<close> produces; when it is below 85%, the server is left as it was. The
  percentage is computed in double arithmetic, which decides the comparison with 85 as
  exact arithmetic does.
\<close>

theorem check_memory_usage_high_water:
  assumes "redis_client w = Some c"
  shows "(85 * (MAX_MEMORY_MB * 1024 * 1024) \<le> 100 * used_memory
            \<longrightarrow> fst (check_memory_usage w used_memory) = clean_temp_data w)
       \<and> (100 * used_memory < 85 * (MAX_MEMORY_MB * 1024 * 1024)
            \<longrightarrow> server (fst (check_memory_usage w used_memory)) = server w)"
  by (simp add: check_memory_usage_client [OF assms] MAX_MEMORY_MB_def)

theorem check_memory_usage_high_water_witness:
  "redis_client c5_world = Some \<lparr>pool_open = True\<rparr>
   \<and> 85 * (MAX_MEMORY_MB * 1024 * 1024) \<le> 100 * (7130316800::nat)
   \<and> fst (check_memory_usage c5_world 7130316800) = clean_temp_data c5_world
   \<and> 100 * (7130316799::nat) < 85 * (MAX_MEMORY_MB * 1024 * 1024)
   \<and> server (fst (check_memory_usage c5_world 7130316799)) = server c5_world"
proof -
  have c: "redis_client c5_world = Some \<lparr>pool_open = True\<rparr>" by (simp add: c5_world_def)
  have hi: "85 * (MAX_MEMORY_MB * 1024 * 1024) \<le> 100 * (7130316800::nat)"
    by (simp add: MAX_MEMORY_MB_def)
  have lo: "100 * (7130316799::nat) < 85 * (MAX_MEMORY_MB * 1024 * 1024)"
    by (simp add: MAX_MEMORY_MB_def)
  from check_memory_usage_high_water [OF c, of 7130316800] hi
  have 1: "fst (check_memory_usage c5_world 7130316800) = clean_temp_data c5_world" by blast
  from check_memory_usage_high_water [OF c, of 7130316799] lo
  have 2: "server (fst (check_memory_usage c5_world 7130316799)) = server c5_world" by blast
  from c hi lo 1 2 show ?thesis by blast
qed

text \<open>
  C2. The claim that the expiry of a temp batch leaves the formal namespace alone fails:
  \<open>batch_save\<close> sets the expiry on the root hash, which holds the formal fields too. Here a
  formal field is in the store, a temp batch is written, and after \<open>TEMP_DATA_TTL\<close> seconds
  the formal field is gone.
\<close>

theorem temp_batch_expiry_removes_formal:
  "hget (gen_field 0 0 0 (Fin (1 / 100)) False) c2_db = Some (c2b \<lparr>real_part = 1 / 2, imag_part = 0\<rparr>)
   \<and> \<not> isl (batch_save c2_psi (Fin (1 / 100)) True c2_db)
   \<and> hget (gen_field 0 0 0 (Fin (1 / 100)) False)
        (elapse TEMP_DATA_TTL (fst (projr (batch_save c2_psi (Fin (1 / 100)) True c2_db)))) = None"
proof -
  have sh: "shape c2_psi = (1, 1, 1)" by (simp add: c2_psi_def)
  have b: "batch_save c2_psi (Fin (1 / 100)) True c2_db =
      Inr (after_batch c2_psi (Fin (1 / 100)) True c2_db, \<lparr>res_count = 1 * 1 * 1, res_temp = True\<rparr>)"
    using sh by (rule batch_save_nonempty) simp
  have "root_ttl (after_batch c2_psi (Fin (1 / 100)) True c2_db) = Some TEMP_DATA_TTL"
    by (simp add: root_ttl_after_batch)
  then have "hget (gen_field 0 0 0 (Fin (1 / 100)) False)
      (elapse TEMP_DATA_TTL (after_batch c2_psi (Fin (1 / 100)) True c2_db)) = None"
    by (rule hget_elapse_expired) simp
  moreover have "hget (gen_field 0 0 0 (Fin (1 / 100)) False) c2_db
      = Some (c2b \<lparr>real_part = 1 / 2, imag_part = 0\<rparr>)"
    by (simp add: c2_db_def hget_def)
  ultimately show ?thesis by (simp add: b)
qed

text \<open>
  C2, as amended. A temp batch of at least one sample arms the expiry of the root hash to
  \<open>TEMP_DATA_TTL\<close>; until that time has passed every field reads as before, and once it has
  passed (no command coming in between) the whole hash is gone: no field of it can be
  read, whether of that batch or of the formal namespace.
\<close>

theorem temp_batch_expires_whole_hash:
  assumes "shape psi = (nx, ny, nz)" and "0 < nx * ny * nz"
  shows "\<exists>s' r. batch_save psi t True s = Inr (s', r)
           \<and> root_ttl s' = Some TEMP_DATA_TTL
           \<and> (\<forall>dt f. dt < TEMP_DATA_TTL \<longrightarrow> hget f (elapse dt s') = hget f s')
           \<and> (\<forall>dt f. TEMP_DATA_TTL \<le> dt \<longrightarrow> hget f (elapse dt s') = None)"
proof -
  have ttl: "root_ttl (after_batch psi t True s) = Some TEMP_DATA_TTL"
    by (simp add: root_ttl_after_batch)
  show ?thesis
    using batch_save_nonempty [OF assms, of t True s] ttl
      hget_elapse_live [OF ttl] hget_elapse_expired [OF ttl]
    by auto
qed

theorem temp_batch_expires_whole_hash_witness:
  "shape c2_psi = (1, 1, 1) \<and> (0::nat) < 1 * 1 * 1
   \<and> (\<exists>s' r. batch_save c2_psi (Fin (1 / 100)) True c2_db = Inr (s', r)
         \<and> root_ttl s' = Some TEMP_DATA_TTL
         \<and> hget (gen_field 0 0 0 (Fin (1 / 100)) True) (elapse 3599 s') = hget (gen_field 0 0 0 (Fin (1 / 100)) True) s'
         \<and> hget (gen_field 0 0 0 (Fin (1 / 100)) True) (elapse 3600 s') = None
         \<and> hget (gen_field 0 0 0 (Fin (1 / 100)) False) (elapse 3600 s') = None)"
proof -
  have sh: "shape c2_psi = (1, 1, 1)" by (simp add: c2_psi_def)
  have pos: "(0::nat) < 1 * 1 * 1" by simp
  from temp_batch_expires_whole_hash [OF sh pos, of "Fin (1 / 100)" c2_db]
  obtain s' r where s': "batch_save c2_psi (Fin (1 / 100)) True c2_db = Inr (s', r)"
    "root_ttl s' = Some TEMP_DATA_TTL"
    "\<forall>dt f. dt < TEMP_DATA_TTL \<longrightarrow> hget f (elapse dt s') = hget f s'"
    "\<forall>dt f. TEMP_DATA_TTL \<le> dt \<longrightarrow> hget f (elapse dt s') = None"
    by blast
  have "(3599::nat) < TEMP_DATA_TTL" "TEMP_DATA_TTL \<le> (3600::nat)"
    by (simp_all add: TEMP_DATA_TTL_def)
  with s' sh pos show ?thesis by blast
qed

text \<open>
  C6. The claim that \<open>get_point\<close> returns the exact value supplied fails: the value is
  stored with ten decimals. A sample \<open>2^-40\<close> is read back as \<open>0\<close>.
\<close>

theorem get_point_not_exact:
  "\<not> isl (batch_save c6_psi (Fin (1 / 100)) False c6_db)
   \<and> get_point 0 0 0 (Fin (1 / 100)) False (fst (projr (batch_save c6_psi (Fin (1 / 100)) False c6_db)))
       = Inr \<lparr>real_part = 0, imag_part = 0\<rparr>
   \<and> item c6_psi 0 0 0 \<noteq> \<lparr>real_part = 0, imag_part = 0\<rparr>"
proof -
  have sh: "shape c6_psi = (1, 1, 1)" by (simp add: c6_psi_def)
  have b: "batch_save c6_psi (Fin (1 / 100)) False c6_db =
      Inr (after_batch c6_psi (Fin (1 / 100)) False c6_db, \<lparr>res_count = 1 * 1 * 1, res_temp = False\<rparr>)"
    using sh by (rule batch_save_nonempty) simp
  have r: "rounded_digits 10 (1 / 1099511627776) = 0" by (rule rounded_digits_eqI) simp_all
  have z: "rounded_digits 10 0 = 0" by (rule rounded_digits_eqI) simp_all
  have "get_point (int 0) (int 0) (int 0) (Fin (1 / 100)) False (after_batch c6_psi (Fin (1 / 100)) False c6_db)
      = Inr \<lparr>real_part = round_double (decimal_value 10 (real_part (item c6_psi 0 0 0))),
             imag_part = round_double (decimal_value 10 (imag_part (item c6_psi 0 0 0)))\<rparr>"
    using sh by (rule get_point_after_batch) simp_all
  moreover have "decimal_value 10 (real_part (item c6_psi 0 0 0)) = 0"
    "decimal_value 10 (imag_part (item c6_psi 0 0 0)) = 0"
    by (simp_all add: c6_psi_def decimal_value_def r z)
  ultimately have g: "get_point 0 0 0 (Fin (1 / 100)) False (after_batch c6_psi (Fin (1 / 100)) False c6_db)
      = Inr \<lparr>real_part = 0, imag_part = 0\<rparr>"
    by simp
  have i: "item c6_psi 0 0 0 \<noteq> \<lparr>real_part = 0, imag_part = 0\<rparr>"
    by (simp add: c6_psi_def)
  from g i show ?thesis by (simp add: b)
qed

text \<open>
  C6, as amended. For an array of at least one sample, \<open>batch_save\<close> succeeds, reports and
  writes one encoded sample for every coordinate within the shape, and \<open>get_point\<close> at a
  coordinate of the batch (same \<open>t\<close>, same flag) returns the decoding of that encoding: each
  part of the value supplied, rounded to ten decimals and read as a double. That is within
  \<open>10^-9\<close> of the part supplied when this is at most \<open>10^6\<close> in absolute value.
\<close>

theorem batch_save_then_get_point:
  assumes "shape psi = (nx, ny, nz)" and "0 < nx * ny * nz"
  shows "\<exists>s' r. batch_save psi t temp s = Inr (s', r) \<and> res_count r = nx * ny * nz
           \<and> (\<forall>x y z. x < nx \<and> y < ny \<and> z < nz \<longrightarrow>
                 hget (gen_field (int x) (int y) (int z) t temp) s' = Some (c2b (item psi x y z))
               \<and> get_point (int x) (int y) (int z) t temp s' = b2c (c2b (item psi x y z))
               \<and> get_point (int x) (int y) (int z) t temp s' =
                   Inr \<lparr>real_part = round_double (decimal_value 10 (real_part (item psi x y z))),
                        imag_part = round_double (decimal_value 10 (imag_part (item psi x y z)))\<rparr>
               \<and> (\<bar>real_part (item psi x y z)\<bar> \<le> 10 ^ 6 \<longrightarrow>
                    \<bar>round_double (decimal_value 10 (real_part (item psi x y z)))
                       - real_part (item psi x y z)\<bar> \<le> 1 / 10 ^ 9)
               \<and> (\<bar>imag_part (item psi x y z)\<bar> \<le> 10 ^ 6 \<longrightarrow>
                    \<bar>round_double (decimal_value 10 (imag_part (item psi x y z)))
                       - imag_part (item psi x y z)\<bar> \<le> 1 / 10 ^ 9))"
  using batch_save_nonempty [OF assms, of t temp s]
    hget_after_batch_sample [OF assms(1), of _ _ _ t temp s]
    get_point_after_batch [OF assms(1), of _ _ _ t temp s]
    component_round_trip
  by (simp add: b2c_c2b)

theorem batch_save_then_get_point_witness:
  "shape c6_grid = (4, 4, 4) \<and> (0::nat) < 4 * 4 * 4
   \<and> (\<exists>s' r. batch_save c6_grid (Fin (1 / 100)) False c6_db = Inr (s', r) \<and> res_count r = 64
         \<and> hget (gen_field 2 2 2 (Fin (1 / 100)) False) s' = Some (c2b (item c6_grid 2 2 2))
         \<and> get_point 2 2 2 (Fin (1 / 100)) False s'
             = Inr \<lparr>real_part = round_double (decimal_value 10 1),
                    imag_part = round_double (decimal_value 10 (- 1 / 4))\<rparr>
         \<and> \<bar>round_double (decimal_value 10 1) - 1\<bar> \<le> 1 / 10 ^ 9)"
proof -
  have sh: "shape c6_grid = (4, 4, 4)" by (simp add: c6_grid_def)
  have pos: "(0::nat) < 4 * 4 * 4" by simp
  have it: "item c6_grid 2 2 2 = \<lparr>real_part = 1, imag_part = - 1 / 4\<rparr>"
    by (simp add: c6_grid_def)
  from batch_save_then_get_point [OF sh pos, of "Fin (1 / 100)" False c6_db]
  obtain s' r where b: "batch_save c6_grid (Fin (1 / 100)) False c6_db = Inr (s', r)"
    "res_count r = 4 * 4 * 4"
    and all: "\<forall>x y z. x < 4 \<and> y < 4 \<and> z < 4 \<longrightarrow>
                 hget (gen_field (int x) (int y) (int z) (Fin (1 / 100)) False) s' = Some (c2b (item c6_grid x y z))
               \<and> get_point (int x) (int y) (int z) (Fin (1 / 100)) False s' = b2c (c2b (item c6_grid x y z))
               \<and> get_point (int x) (int y) (int z) (Fin (1 / 100)) False s' =
                   Inr \<lparr>real_part = round_double (decimal_value 10 (real_part (item c6_grid x y z))),
                        imag_part = round_double (decimal_value 10 (imag_part (item c6_grid x y z)))\<rparr>
               \<and> (\<bar>real_part (item c6_grid x y z)\<bar> \<le> 10 ^ 6 \<longrightarrow>
                    \<bar>round_double (decimal_value 10 (real_part (item c6_grid x y z)))
                       - real_part (item c6_grid x y z)\<bar> \<le> 1 / 10 ^ 9)
               \<and> (\<bar>imag_part (item c6_grid x y z)\<bar> \<le> 10 ^ 6 \<longrightarrow>
                    \<bar>round_double (decimal_value 10 (imag_part (item c6_grid x y z)))
                       - imag_part (item c6_grid x y z)\<bar> \<le> 1 / 10 ^ 9)"
    by blast
  from all [rule_format, of 2 2 2] have
    "hget (gen_field 2 2 2 (Fin (1 / 100)) False) s' = Some (c2b (item c6_grid 2 2 2))"
    "get_point 2 2 2 (Fin (1 / 100)) False s'
       = Inr \<lparr>real_part = round_double (decimal_value 10 1),
              imag_part = round_double (decimal_value 10 (- 1 / 4))\<rparr>"
    "\<bar>round_double (decimal_value 10 1) - 1\<bar> \<le> 1 / 10 ^ 9"
    by (auto simp: it)
  with b sh pos show ?thesis by auto
qed

text \<open>
  C7. On a store whose values are encoded samples, which is what \<open>batch_save\<close>, the only
  writer of the hash, leaves behind, \<open>get_point\<close> raises its not-found error (in the source,
  \<^verbatim>\<open>KeyError\<close>) exactly when the field is absent; a field never written raises it and yields
  no value; a read raises no other error; and a field that is present is decoded.
\<close>

theorem get_point_KeyError_iff_absent:
  assumes "codec_store s"
  shows "(get_point x y z t temp s = Inl KeyError \<longleftrightarrow> hget (gen_field x y z t temp) s = None)
       \<and> (\<forall>e. get_point x y z t temp s = Inl e \<longrightarrow>
              e = KeyError \<and> hget (gen_field x y z t temp) s = None)
       \<and> (\<forall>v. hget (gen_field x y z t temp) s = Some v \<longrightarrow>
              (\<exists>d. get_point x y z t temp s = Inr d \<and> b2c v = Inr d))"
proof (cases "hget (gen_field x y z t temp) s")
  case None
  then show ?thesis by (simp add: get_point_def)
next
  case (Some v)
  with assms obtain c where "v = c2b c" by (blast dest: codec_store_hget)
  with Some show ?thesis by (simp add: get_point_def c2b_nonempty b2c_c2b)
qed

theorem get_point_KeyError_iff_absent_witness:
  "codec_store c7_store
   \<and> hget (gen_field 5 5 5 (Fin 0) False) c7_store = None
   \<and> get_point 5 5 5 (Fin 0) False c7_store = Inl KeyError
   \<and> hget (gen_field 0 0 0 (Fin 0) False) c7_store = Some (c2b \<lparr>real_part = 1, imag_part = 0\<rparr>)
   \<and> get_point 0 0 0 (Fin 0) False c7_store \<noteq> Inl KeyError
   \<and> get_point 0 0 0 (Fin 0) False c7_store = b2c (c2b \<lparr>real_part = 1, imag_part = 0\<rparr>)"
proof -
  have cs: "codec_store c7_store" by (simp add: codec_store_def c7_store_def)
  have a: "hget (gen_field 5 5 5 (Fin 0) False) c7_store = None"
    by (simp add: hget_def c7_store_def gen_field_eq_iff)
  have p: "hget (gen_field 0 0 0 (Fin 0) False) c7_store = Some (c2b \<lparr>real_part = 1, imag_part = 0\<rparr>)"
    by (simp add: hget_def c7_store_def)
  from get_point_KeyError_iff_absent [OF cs, of 5 5 5 "Fin 0" False] a
  have 1: "get_point 5 5 5 (Fin 0) False c7_store = Inl KeyError" by blast
  from get_point_KeyError_iff_absent [OF cs, of 0 0 0 "Fin 0" False] p
  have 2: "get_point 0 0 0 (Fin 0) False c7_store \<noteq> Inl KeyError"
    and 3: "get_point 0 0 0 (Fin 0) False c7_store = b2c (c2b \<lparr>real_part = 1, imag_part = 0\<rparr>)"
    by auto
  from cs a p 1 2 3 show ?thesis by blast
qed

text \<open>
  C9. A batch with \<open>temp = False\<close> leaves the expiry of the root hash as it finds it. If an
  expiry was armed, the samples the batch writes are in the hash that expires: when the
  time left has passed, they are gone with it.
\<close>

theorem formal_batch_keeps_expiry:
  assumes "shape psi = (nx, ny, nz)" and "0 < nx * ny * nz"
  shows "\<exists>s' r. batch_save psi t False s = Inr (s', r)
           \<and> root_ttl s' = root_ttl s
           \<and> (\<forall>d x y z. root_ttl s = Some d \<and> x < nx \<and> y < ny \<and> z < nz \<longrightarrow>
                 hget (gen_field (int x) (int y) (int z) t False) s' = Some (c2b (item psi x y z))
               \<and> hget (gen_field (int x) (int y) (int z) t False) (elapse d s') = None
               \<and> get_point (int x) (int y) (int z) t False (elapse d s') = Inl KeyError)"
proof -
  let ?s' = "after_batch psi t False s"
  have ttl: "root_ttl ?s' = root_ttl s" by (simp add: root_ttl_after_batch)
  have gone: "hget f (elapse d ?s') = None" if "root_ttl s = Some d" for d f
    using that ttl by (intro hget_elapse_expired [of _ d]) simp_all
  show ?thesis
    using batch_save_nonempty [OF assms, of t False s] ttl gone
      hget_after_batch_sample [OF assms(1), of _ _ _ t False s]
    by (simp add: get_point_def)
qed

theorem formal_batch_keeps_expiry_witness:
  "shape c9_psi = (1, 1, 1) \<and> (0::nat) < 1 * 1 * 1 \<and> root_ttl c9_db = Some 3600
   \<and> (\<exists>s' r. batch_save c9_psi (Fin (1 / 50)) False c9_db = Inr (s', r)
         \<and> root_ttl s' = Some 3600
         \<and> hget (gen_field 0 0 0 (Fin (1 / 50)) False) s' = Some (c2b (item c9_psi 0 0 0))
         \<and> get_point 0 0 0 (Fin (1 / 50)) False (elapse 3600 s') = Inl KeyError)"
proof -
  have sh: "shape c9_psi = (1, 1, 1)" by (simp add: c9_psi_def)
  have pos: "(0::nat) < 1 * 1 * 1" by simp
  have ttl: "root_ttl c9_db = Some 3600" by (simp add: c9_db_def)
  from formal_batch_keeps_expiry [OF sh pos, of "Fin (1 / 50)" c9_db]
  obtain s' r where b: "batch_save c9_psi (Fin (1 / 50)) False c9_db = Inr (s', r)"
    "root_ttl s' = root_ttl c9_db"
    and all: "\<forall>d x y z. root_ttl c9_db = Some d \<and> x < 1 \<and> y < 1 \<and> z < 1 \<longrightarrow>
                 hget (gen_field (int x) (int y) (int z) (Fin (1 / 50)) False) s' = Some (c2b (item c9_psi x y z))
               \<and> hget (gen_field (int x) (int y) (int z) (Fin (1 / 50)) False) (elapse d s') = None
               \<and> get_point (int x) (int y) (int z) (Fin (1 / 50)) False (elapse d s') = Inl KeyError"
    by blast
  from all [rule_format, of 3600 0 0 0] ttl have
    "hget (gen_field 0 0 0 (Fin (1 / 50)) False) s' = Some (c2b (item c9_psi 0 0 0))"
    "get_point 0 0 0 (Fin (1 / 50)) False (elapse 3600 s') = Inl KeyError"
    by auto
  with b sh pos ttl show ?thesis by auto
qed

end
